theory Spec2Isabelle
  imports Complex_Main "HOL-Library.Word" "HOL-Library.Char_ord" "HOL-Library.List_Lexorder"
begin

unbundle bit_operations_syntax

section \<open>Errors\<close>

text \<open>
  Failed assertions and out-of-range vector reads of the C++ source are values of this
  type; a function that can fail returns \<open>error + 'a\<close> with \<open>Inl\<close> for the failure.
\<close>

datatype error =
    OutOfRange
  | AssertMixedOperators
  | AssertCreationFirst
  | AssertDeltaArity
  | AssertSpinFreeArity
  | AssertDetLength
  | AssertRepeatedDet
  | AssertLookUp
  | AssertMissingOperand
  | AssertNullOperand
  | AssertSumProdShape
  | AssertEmptyOps
  | LengthError
  | AssertFalse

definition bindE :: "error + 'a \<Rightarrow> ('a \<Rightarrow> error + 'b) \<Rightarrow> error + 'b" where
  "bindE m f = (case m of Inl e \<Rightarrow> Inl e | Inr x \<Rightarrow> f x)"

section \<open>Index and permutation algebra (wick.hpp)\<close>

subsection \<open>WickIndexTypes\<close>

text \<open>\<open>enum struct WickIndexTypes : uint8_t\<close>, used as a bit mask.\<close>

type_synonym WickIndexTypes = "8 word"

definition None_t :: WickIndexTypes where "None_t = 0"
definition Inactive :: WickIndexTypes where "Inactive = 1"
definition Active :: WickIndexTypes where "Active = 2"
definition External :: WickIndexTypes where "External = 4"
definition Alpha :: WickIndexTypes where "Alpha = 8"
definition Beta :: WickIndexTypes where "Beta = 16"

datatype WickTensorTypes =
    CreationOperator
  | DestroyOperator
  | SpinFreeOperator
  | KroneckerDelta
  | Tensor

text \<open>The numeric value of the enum, which \<open>operator<\<close> on tensor types compares.\<close>

fun tensor_type_code :: "WickTensorTypes \<Rightarrow> nat" where
  "tensor_type_code CreationOperator = 0"
| "tensor_type_code DestroyOperator = 1"
| "tensor_type_code SpinFreeOperator = 2"
| "tensor_type_code KroneckerDelta = 3"
| "tensor_type_code Tensor = 4"

subsection \<open>WickIndex\<close>

datatype WickIndex = WickIndex (name: string) (types: WickIndexTypes)

text \<open>
  \<open>WickIndex::operator<\<close>: by type mask first, then by name. \<open>std::string\<close> compares
  bytes as unsigned values, lexicographically, which is the order of \<open>char list\<close>.
\<close>

instantiation WickIndex :: linorder
begin

definition less_WickIndex :: "WickIndex \<Rightarrow> WickIndex \<Rightarrow> bool" where
  "less_WickIndex a b =
     (if types a = types b then name a < name b else types a < types b)"

definition less_eq_WickIndex :: "WickIndex \<Rightarrow> WickIndex \<Rightarrow> bool" where
  "less_eq_WickIndex a b = (a = b \<or> a < b)"

instance
proof
  fix x y z :: WickIndex
  show "(x < y) = (x \<le> y \<and> \<not> y \<le> x)"
    by (cases x; cases y) (auto simp: less_WickIndex_def less_eq_WickIndex_def)
  show "x \<le> x"
    by (simp add: less_eq_WickIndex_def)
  show "x \<le> y \<Longrightarrow> y \<le> z \<Longrightarrow> x \<le> z"
    by (cases x; cases y; cases z)
       (auto simp: less_WickIndex_def less_eq_WickIndex_def split: if_splits)
  show "x \<le> y \<Longrightarrow> y \<le> x \<Longrightarrow> x = y"
    by (cases x; cases y)
       (auto simp: less_WickIndex_def less_eq_WickIndex_def split: if_splits)
  show "x \<le> y \<or> y \<le> x"
    by (cases x; cases y)
       (auto simp: less_WickIndex_def less_eq_WickIndex_def split: if_splits)
qed

end

definition has_types :: "WickIndex \<Rightarrow> bool" where
  "has_types wi = (types wi \<noteq> None_t)"

definition with_no_types :: "WickIndex \<Rightarrow> WickIndex" where
  "with_no_types wi = WickIndex (name wi) None_t"

subsection \<open>WickPermutation\<close>

text \<open>
  \<open>data\<close> is a \<open>vector<int16_t>\<close>: the entries are integers, and a value stored into
  the vector is reduced to the 16-bit signed range.
\<close>

record WickPermutation =
  data :: "int list"
  negative :: bool

definition to_int16 :: "int \<Rightarrow> int" where
  "to_int16 x = (x + 32768) mod 65536 - 32768"

text \<open>
  \<open>operator*\<close>: \<open>r[i] = data[other.data[i]]\<close> for \<open>i < data.size()\<close>. A read outside
  either vector is undefined behaviour in C++ and an \<open>OutOfRange\<close> error here.
\<close>

definition perm_reads_ok :: "WickPermutation \<Rightarrow> WickPermutation \<Rightarrow> bool" where
  "perm_reads_ok p q =
     list_all (\<lambda>i. i < length (data q) \<and> 0 \<le> data q ! i \<and> data q ! i < int (length (data p)))
       [0..<length (data p)]"

definition perm_mul :: "WickPermutation \<Rightarrow> WickPermutation \<Rightarrow> error + WickPermutation" where
  "perm_mul p q =
     (if perm_reads_ok p q
      then Inr \<lparr>data = map (\<lambda>i. data p ! nat (data q ! i)) [0..<length (data p)],
                negative = (negative p \<noteq> negative q)\<rparr>
      else Inl OutOfRange)"

definition ident :: "nat \<Rightarrow> int list" where
  "ident n = map (\<lambda>i. to_int16 (int i)) [0..<n]"

text \<open>
  The inner loop of \<open>complete_set\<close> over the generators. The hash set \<open>swp\<close> always
  holds exactly the elements of \<open>vwp\<close> (both are extended together, and its equality is
  \<open>operator==\<close>: same sign and same data), so membership in it is membership in \<open>vwp\<close>.
\<close>

fun add_products :: "WickPermutation \<Rightarrow> WickPermutation list \<Rightarrow> WickPermutation list
    \<Rightarrow> error + WickPermutation list" where
  "add_products g [] vwp = Inr vwp"
| "add_products g (d # ds) vwp =
     (case perm_mul g d of
        Inl e \<Rightarrow> Inl e
      | Inr h \<Rightarrow> add_products g ds (if h \<in> set vwp then vwp else vwp @ [h]))"

definition perm_universe :: "WickPermutation list \<Rightarrow> WickPermutation set" where
  "perm_universe v =
     {p. (\<exists>q \<in> set v. length (data p) = length (data q)) \<and>
         set (data p) \<subseteq> (\<Union>q \<in> set v. set (data q))}"

lemma perm_mul_shape:
  assumes "perm_mul g d = Inr h"
  shows "length (data h) = length (data g)" and "set (data h) \<subseteq> set (data g)"
proof -
  from assms have ok: "perm_reads_ok g d"
    and h: "h = \<lparr>data = map (\<lambda>i. data g ! nat (data d ! i)) [0..<length (data g)],
                 negative = (negative g \<noteq> negative d)\<rparr>"
    by (auto simp: perm_mul_def split: if_splits)
  show "length (data h) = length (data g)" using h by simp
  show "set (data h) \<subseteq> set (data g)"
  proof
    fix x assume "x \<in> set (data h)"
    then obtain i where i: "i < length (data g)" and x: "x = data g ! nat (data d ! i)"
      using h by auto
    from ok i have "0 \<le> data d ! i" "data d ! i < int (length (data g))"
      by (auto simp: perm_reads_ok_def list_all_iff)
    then have "nat (data d ! i) < length (data g)" by linarith
    then show "x \<in> set (data g)" using x by simp
  qed
qed

lemma add_products_extends:
  assumes "add_products g ds v = Inr v'"
  shows "\<exists>ys. v' = v @ ys \<and> set ys \<inter> set v = {} \<and>
           (\<forall>h \<in> set ys. \<exists>d \<in> set ds. perm_mul g d = Inr h)"
  using assms
proof (induction ds arbitrary: v)
  case Nil
  then show ?case by simp
next
  case (Cons d ds)
  from Cons.prems obtain h where h: "perm_mul g d = Inr h"
    and rest: "add_products g ds (if h \<in> set v then v else v @ [h]) = Inr v'"
    by (auto split: sum.splits)
  from Cons.IH[OF rest] obtain ys where ys:
    "v' = (if h \<in> set v then v else v @ [h]) @ ys"
    "set ys \<inter> set (if h \<in> set v then v else v @ [h]) = {}"
    "\<forall>k \<in> set ys. \<exists>d \<in> set ds. perm_mul g d = Inr k"
    by blast
  show ?case
  proof (cases "h \<in> set v")
    case True
    with ys show ?thesis by auto
  next
    case False
    with ys h have "v' = v @ (h # ys)" "set (h # ys) \<inter> set v = {}"
      "\<forall>k \<in> set (h # ys). \<exists>d \<in> set (d # ds). perm_mul g d = Inr k"
      by auto
    then show ?thesis by blast
  qed
qed

lemma finite_perm_universe: "finite (perm_universe v)"
proof -
  let ?E = "\<Union>q \<in> set v. set (data q)"
  let ?L = "{xs. set xs \<subseteq> ?E \<and> length xs \<le> Max (insert 0 ((\<lambda>q. length (data q)) ` set v))}"
  have finL: "finite ?L"
    by (rule finite_lists_length_le) simp
  have "perm_universe v \<subseteq> (\<lambda>(xs, b). \<lparr>data = xs, negative = b\<rparr>) ` (?L \<times> UNIV)"
  proof
    fix p assume p: "p \<in> perm_universe v"
    then obtain q where q: "q \<in> set v" "length (data p) = length (data q)"
      and sub: "set (data p) \<subseteq> ?E"
      by (auto simp: perm_universe_def)
    have "length (data q) \<le> Max (insert 0 ((\<lambda>q. length (data q)) ` set v))"
      using q(1) by (intro Max_ge) auto
    then have "data p \<in> ?L" using q(2) sub by simp
    moreover have "p = \<lparr>data = data p, negative = negative p\<rparr>" by simp
    ultimately show "p \<in> (\<lambda>(xs, b). \<lparr>data = xs, negative = b\<rparr>) ` (?L \<times> UNIV)"
      by (metis (mono_tags, lifting) UNIV_I SigmaI image_eqI case_prod_conv)
  qed
  moreover have "finite ((\<lambda>(xs, b). \<lparr>data = xs, negative = b\<rparr>) ` (?L \<times> (UNIV :: bool set)))"
    using finL by simp
  ultimately show ?thesis by (rule finite_subset)
qed

lemma add_products_universe:
  assumes "add_products g ds v = Inr v'" and "g \<in> set v"
  shows "perm_universe v' = perm_universe v" and "set v' \<subseteq> perm_universe v"
    and "set v \<subseteq> set v'" and "set v' = set v \<Longrightarrow> v' = v" and "length v \<le> length v'"
proof -
  from add_products_extends[OF assms(1)] obtain ys where ys:
    "v' = v @ ys" "set ys \<inter> set v = {}"
    "\<forall>h \<in> set ys. \<exists>d \<in> set ds. perm_mul g d = Inr h"
    by blast
  have shape: "\<forall>h \<in> set ys. length (data h) = length (data g) \<and> set (data h) \<subseteq> set (data g)"
  proof
    fix h assume "h \<in> set ys"
    then obtain d where "perm_mul g d = Inr h" using ys(3) by blast
    then show "length (data h) = length (data g) \<and> set (data h) \<subseteq> set (data g)"
      using perm_mul_shape by simp
  qed
  have len: "(\<exists>q \<in> set (v @ ys). length (data p) = length (data q)) =
             (\<exists>q \<in> set v. length (data p) = length (data q))" for p
  proof
    assume "\<exists>q \<in> set (v @ ys). length (data p) = length (data q)"
    then obtain q where q: "q \<in> set v \<or> q \<in> set ys" "length (data p) = length (data q)"
      by auto
    from q(1) show "\<exists>q \<in> set v. length (data p) = length (data q)"
    proof
      assume "q \<in> set v" then show ?thesis using q(2) by blast
    next
      assume "q \<in> set ys"
      then have "length (data q) = length (data g)" using shape by blast
      then show ?thesis using q(2) assms(2) by auto
    qed
  next
    assume "\<exists>q \<in> set v. length (data p) = length (data q)"
    then show "\<exists>q \<in> set (v @ ys). length (data p) = length (data q)" by auto
  qed
  have un: "(\<Union>q \<in> set (v @ ys). set (data q)) = (\<Union>q \<in> set v. set (data q))"
  proof
    show "(\<Union>q \<in> set (v @ ys). set (data q)) \<subseteq> (\<Union>q \<in> set v. set (data q))"
    proof
      fix x assume "x \<in> (\<Union>q \<in> set (v @ ys). set (data q))"
      then obtain q where q: "q \<in> set v \<or> q \<in> set ys" "x \<in> set (data q)" by auto
      from q(1) show "x \<in> (\<Union>q \<in> set v. set (data q))"
      proof
        assume "q \<in> set v" then show ?thesis using q(2) by blast
      next
        assume "q \<in> set ys"
        then have "set (data q) \<subseteq> set (data g)" using shape by blast
        then have "x \<in> set (data g)" using q(2) by blast
        then show ?thesis using assms(2) by blast
      qed
    qed
    show "(\<Union>q \<in> set v. set (data q)) \<subseteq> (\<Union>q \<in> set (v @ ys). set (data q))"
      by auto
  qed
  show "perm_universe v' = perm_universe v"
    unfolding perm_universe_def ys(1) len un ..
  have "set v \<subseteq> perm_universe v"
    unfolding perm_universe_def by blast
  moreover have "set ys \<subseteq> perm_universe v"
  proof
    fix h assume "h \<in> set ys"
    then have "length (data h) = length (data g)" "set (data h) \<subseteq> set (data g)"
      using shape by blast+
    then show "h \<in> perm_universe v"
      unfolding perm_universe_def using assms(2) by blast
  qed
  ultimately show "set v' \<subseteq> perm_universe v" using ys(1) by simp
  show "set v \<subseteq> set v'" using ys(1) by simp
  show "length v \<le> length v'" using ys(1) by simp
  show "v' = v" if "set v' = set v"
  proof -
    from that ys(1) have "set ys \<subseteq> set v" by auto
    then have "set ys \<inter> set v = set ys" by (rule Int_absorb2)
    with ys(2) have "ys = []" by simp
    then show ?thesis using ys(1) by simp
  qed
qed

function complete_loop :: "WickPermutation list \<Rightarrow> nat \<Rightarrow> WickPermutation list
    \<Rightarrow> error + WickPermutation list" where
  "complete_loop def k vwp =
     (if k < length vwp
      then (case add_products (vwp ! k) def vwp of
              Inl e \<Rightarrow> Inl e
            | Inr v \<Rightarrow> complete_loop def (Suc k) v)
      else Inr vwp)"
  by pat_completeness auto
termination
proof (relation "inv_image (less_than <*lex*> less_than)
    (\<lambda>(def, k, v). (card (perm_universe v - set v), length v - k))")
  show "wf (inv_image (less_than <*lex*> less_than)
    (\<lambda>(def, k, v). (card (perm_universe v - set v), length v - k)))"
    by (intro wf_inv_image wf_lex_prod wf_less_than)
next
  fix def :: "WickPermutation list" and k :: nat and vwp v :: "WickPermutation list"
  assume k: "k < length vwp" and step: "add_products (vwp ! k) def vwp = Inr v"
  from k have mem: "vwp ! k \<in> set vwp" by simp
  note u = add_products_universe[OF step mem]
  show "((def, Suc k, v), (def, k, vwp)) \<in> inv_image (less_than <*lex*> less_than)
    (\<lambda>(def, k, v). (card (perm_universe v - set v), length v - k))"
  proof (cases "set v = set vwp")
    case True
    then have "v = vwp" using u(4) by simp
    then show ?thesis using k by simp
  next
    case False
    with u(3) have "set vwp \<subset> set v" by blast
    then have "perm_universe vwp - set v \<subset> perm_universe vwp - set vwp"
      using u(2) by blast
    then have "card (perm_universe vwp - set v) < card (perm_universe vwp - set vwp)"
      by (intro psubset_card_mono) (simp_all add: finite_perm_universe)
    then show ?thesis using u(1) by simp
  qed
qed

definition complete_set :: "nat \<Rightarrow> WickPermutation list \<Rightarrow> error + WickPermutation list" where
  "complete_set n def = complete_loop def 0 [\<lparr>data = ident n, negative = False\<rparr>]"


section \<open>Permutation closure\<close>


definition is_perm :: "nat \<Rightarrow> int list \<Rightarrow> bool" where
  "is_perm n xs = (length xs = n \<and> set xs = {0..<int n})"

definition ident_perm :: "nat \<Rightarrow> WickPermutation" where
  "ident_perm n = \<lparr>data = ident n, negative = False\<rparr>"

inductive_set generated :: "nat \<Rightarrow> WickPermutation list \<Rightarrow> WickPermutation set"
  for n :: nat and G :: "WickPermutation list" where
  gen_ident: "ident_perm n \<in> generated n G"
| gen_step: "p \<in> generated n G \<Longrightarrow> d \<in> set G \<Longrightarrow> perm_mul p d = Inr h \<Longrightarrow> h \<in> generated n G"

lemma to_int16_small: "0 \<le> x \<Longrightarrow> x < 32768 \<Longrightarrow> to_int16 x = x"
  by (simp add: to_int16_def)

lemma ident_small: "n \<le> 32768 \<Longrightarrow> ident n = map int [0..<n]"
  by (auto simp: ident_def to_int16_small)

lemma is_perm_ident: "n \<le> 32768 \<Longrightarrow> is_perm n (ident n)"
proof -
  assume n: "n \<le> 32768"
  have "int ` {0..<n} = {0..<int n}"
    by (simp add: image_int_atLeastLessThan)
  then show ?thesis using n by (simp add: ident_small is_perm_def)
qed

lemma is_perm_nth:
  assumes "is_perm n xs" and "i < n"
  shows "0 \<le> xs ! i" and "xs ! i < int n" and "nat (xs ! i) < n"
proof -
  from assms have "xs ! i \<in> {0..<int n}"
    unfolding is_perm_def using nth_mem by blast
  then show "0 \<le> xs ! i" and "xs ! i < int n" and "nat (xs ! i) < n" by auto
qed

lemma is_perm_distinct: "is_perm n xs \<Longrightarrow> distinct xs"
  by (simp add: is_perm_def card_distinct)

lemma is_perm_surj:
  assumes "is_perm n xs" and "j < n"
  shows "\<exists>i < n. xs ! i = int j"
proof -
  from assms have "int j \<in> set xs" by (simp add: is_perm_def)
  then obtain i where "i < length xs" "xs ! i = int j" by (auto simp: in_set_conv_nth)
  then show ?thesis using assms(1) by (auto simp: is_perm_def)
qed

lemma perm_mul_valid:
  assumes p: "is_perm n (data p)" and q: "is_perm n (data q)"
  shows "perm_mul p q = Inr \<lparr>data = map (\<lambda>i. data p ! nat (data q ! i)) [0..<n],
                              negative = (negative p \<noteq> negative q)\<rparr>"
    and "is_perm n (map (\<lambda>i. data p ! nat (data q ! i)) [0..<n])"
proof -
  have lp: "length (data p) = n" and lq: "length (data q) = n"
    using p q by (simp_all add: is_perm_def)
  have "perm_reads_ok p q"
    unfolding perm_reads_ok_def list_all_iff using is_perm_nth[OF q] lp lq by auto
  then show "perm_mul p q = Inr \<lparr>data = map (\<lambda>i. data p ! nat (data q ! i)) [0..<n],
                              negative = (negative p \<noteq> negative q)\<rparr>"
    by (simp add: perm_mul_def lp)
  have "set (map (\<lambda>i. data p ! nat (data q ! i)) [0..<n]) = {0..<int n}"
  proof
    show "set (map (\<lambda>i. data p ! nat (data q ! i)) [0..<n]) \<subseteq> {0..<int n}"
      using is_perm_nth[OF p] is_perm_nth(3)[OF q] by auto
    show "{0..<int n} \<subseteq> set (map (\<lambda>i. data p ! nat (data q ! i)) [0..<n])"
    proof
      fix x assume "x \<in> {0..<int n}"
      then have x: "nat x < n" "int (nat x) = x" by auto
      from is_perm_surj[OF p x(1)] obtain j where j: "j < n" "data p ! j = x"
        using x(2) by auto
      from is_perm_surj[OF q j(1)] obtain i where i: "i < n" "data q ! i = int j"
        by auto
      then have "data p ! nat (data q ! i) = x" using j by simp
      then show "x \<in> set (map (\<lambda>i. data p ! nat (data q ! i)) [0..<n])"
        using i(1) by force
    qed
  qed
  then show "is_perm n (map (\<lambda>i. data p ! nat (data q ! i)) [0..<n])"
    by (simp add: is_perm_def)
qed

lemma perm_mul_valid_ex:
  assumes "is_perm n (data p)" and "is_perm n (data q)"
  shows "\<exists>h. perm_mul p q = Inr h \<and> is_perm n (data h)"
  using perm_mul_valid[OF assms] by simp

lemma perm_mul_ident_right:
  assumes p: "is_perm n (data p)" and n: "n \<le> 32768"
  shows "perm_mul p (ident_perm n) = Inr p"
proof -
  have lp: "length (data p) = n" using p by (simp add: is_perm_def)
  have "map (\<lambda>i. data p ! nat (data (ident_perm n) ! i)) [0..<n] = data p"
    by (rule nth_equalityI) (simp_all add: lp ident_perm_def ident_small[OF n])
  moreover have "is_perm n (data (ident_perm n))"
    using is_perm_ident[OF n] by (simp add: ident_perm_def)
  ultimately show ?thesis
    using perm_mul_valid(1)[OF p, of "ident_perm n"] by (simp add: ident_perm_def)
qed

lemma perm_mul_assoc:
  assumes p: "is_perm n (data p)" and q: "is_perm n (data q)" and d: "is_perm n (data d)"
    and pq: "perm_mul p q = Inr pq" and qd: "perm_mul q d = Inr qd"
  shows "perm_mul pq d = perm_mul p qd"
proof -
  from perm_mul_valid[OF p q] pq have pq': "pq = \<lparr>data = map (\<lambda>i. data p ! nat (data q ! i)) [0..<n],
      negative = (negative p \<noteq> negative q)\<rparr>" and pqv: "is_perm n (data pq)" by auto
  from perm_mul_valid[OF q d] qd have qd': "qd = \<lparr>data = map (\<lambda>i. data q ! nat (data d ! i)) [0..<n],
      negative = (negative q \<noteq> negative d)\<rparr>" and qdv: "is_perm n (data qd)" by auto
  have "map (\<lambda>i. data pq ! nat (data d ! i)) [0..<n] = map (\<lambda>i. data p ! nat (data qd ! i)) [0..<n]"
    using is_perm_nth(3)[OF d] by (auto simp: pq' qd')
  moreover have "(negative pq \<noteq> negative d) = (negative p \<noteq> negative qd)"
    by (auto simp: pq' qd')
  ultimately show ?thesis
    using perm_mul_valid(1)[OF pqv d] perm_mul_valid(1)[OF p qdv] by simp
qed

lemma generated_valid:
  assumes n: "n \<le> 32768" and G: "\<forall>d \<in> set G. is_perm n (data d)"
  shows "p \<in> generated n G \<Longrightarrow> is_perm n (data p)"
proof (induction rule: generated.induct)
  case gen_ident
  then show ?case using is_perm_ident[OF n] by (simp add: ident_perm_def)
next
  case (gen_step p d h)
  then have "is_perm n (data d)" using G by blast
  from perm_mul_valid[OF gen_step.IH this] gen_step.hyps(3) show ?case by auto
qed


lemma add_products_valid:
  assumes g: "is_perm n (data g)"
  shows "\<forall>d \<in> set ds. is_perm n (data d) \<Longrightarrow>
    \<exists>v'. add_products g ds v = Inr v' \<and> (\<forall>d \<in> set ds. \<exists>h \<in> set v'. perm_mul g d = Inr h)"
proof (induction ds arbitrary: v)
  case Nil
  then show ?case by simp
next
  case (Cons d ds)
  then have d: "is_perm n (data d)" by simp
  from perm_mul_valid_ex[OF g d] obtain h where h: "perm_mul g d = Inr h" by blast
  let ?v = "if h \<in> set v then v else v @ [h]"
  from Cons.IH[of ?v] Cons.prems obtain v' where v':
    "add_products g ds ?v = Inr v'" "\<forall>d \<in> set ds. \<exists>h \<in> set v'. perm_mul g d = Inr h"
    by auto
  from add_products_extends[OF v'(1)] obtain ys where "v' = ?v @ ys" by blast
  then have "h \<in> set v'" by auto
  then have "\<forall>d' \<in> set (d # ds). \<exists>h \<in> set v'. perm_mul g d' = Inr h"
    using h v'(2) by auto
  moreover have "add_products g (d # ds) v = Inr v'"
    using h v'(1) by simp
  ultimately show ?case by blast
qed

lemma complete_loop_closed:
  assumes n: "n \<le> 32768"
  shows "\<forall>d \<in> set G. is_perm n (data d) \<Longrightarrow> set v \<subseteq> generated n G \<Longrightarrow> ident_perm n \<in> set v \<Longrightarrow>
    (\<forall>i<k. \<forall>d \<in> set G. \<exists>h \<in> set v. perm_mul (v ! i) d = Inr h) \<Longrightarrow> k \<le> length v \<Longrightarrow>
    \<exists>R. complete_loop G k v = Inr R \<and> set R \<subseteq> generated n G \<and> ident_perm n \<in> set R \<and>
        (\<forall>p \<in> set R. \<forall>d \<in> set G. \<exists>h \<in> set R. perm_mul p d = Inr h)"
proof (induction G k v rule: complete_loop.induct)
  case (1 def k vwp)
  show ?case
  proof (cases "k < length vwp")
    case True
    let ?g = "vwp ! k"
    have gmem: "?g \<in> generated n def" using True "1.prems"(2) by auto
    have gv: "is_perm n (data ?g)"
      using generated_valid[OF n "1.prems"(1) gmem] .
    from add_products_valid[OF gv "1.prems"(1), of vwp] obtain v' where v':
      "add_products ?g def vwp = Inr v'"
      "\<forall>d \<in> set def. \<exists>h \<in> set v'. perm_mul ?g d = Inr h"
      by blast
    from add_products_extends[OF v'(1)] obtain ys where ys:
      "v' = vwp @ ys" "\<forall>h \<in> set ys. \<exists>d \<in> set def. perm_mul ?g d = Inr h"
      by blast
    have sub: "set v' \<subseteq> generated n def"
    proof
      fix h assume "h \<in> set v'"
      then have "h \<in> set vwp \<or> h \<in> set ys" using ys(1) by auto
      then show "h \<in> generated n def"
      proof
        assume "h \<in> set vwp" then show ?thesis using "1.prems"(2) by blast
      next
        assume "h \<in> set ys"
        then obtain d where "d \<in> set def" "perm_mul ?g d = Inr h" using ys(2) by blast
        then show ?thesis using gmem by (rule_tac gen_step)
      qed
    qed
    have idm: "ident_perm n \<in> set v'" using "1.prems"(3) ys(1) by simp
    have inv: "\<forall>i<Suc k. \<forall>d \<in> set def. \<exists>h \<in> set v'. perm_mul (v' ! i) d = Inr h"
    proof (intro allI impI ballI)
      fix i d assume i: "i < Suc k" and d: "d \<in> set def"
      have eq: "v' ! i = vwp ! i" using i True ys(1) by (simp add: nth_append)
      show "\<exists>h \<in> set v'. perm_mul (v' ! i) d = Inr h"
      proof (cases "i = k")
        case True
        then show ?thesis using v'(2) d eq by simp
      next
        case False
        then have "i < k" using i by simp
        then obtain h where "h \<in> set vwp" "perm_mul (vwp ! i) d = Inr h"
          using "1.prems"(4) d by blast
        then show ?thesis using eq ys(1) by auto
      qed
    qed
    have len: "Suc k \<le> length v'" using True ys(1) by simp
    from "1.IH"[OF True v'(1) "1.prems"(1) sub idm inv len]
    obtain R where R: "complete_loop def (Suc k) v' = Inr R" "set R \<subseteq> generated n def"
      "ident_perm n \<in> set R" "\<forall>p \<in> set R. \<forall>d \<in> set def. \<exists>h \<in> set R. perm_mul p d = Inr h"
      by blast
    have "complete_loop def k vwp = Inr R"
      using True v'(1) R(1) by (subst complete_loop.simps) simp
    then show ?thesis using R(2,3,4) by blast
  next
    case False
    then have k: "k = length vwp" using "1.prems"(5) by simp
    have "complete_loop def k vwp = Inr vwp"
      using False by (subst complete_loop.simps) simp
    moreover have "\<forall>p \<in> set vwp. \<forall>d \<in> set def. \<exists>h \<in> set vwp. perm_mul p d = Inr h"
      using "1.prems"(4) k by (metis in_set_conv_nth)
    ultimately show ?thesis using "1.prems"(2,3) by blast
  qed
qed

lemma complete_set_generated:
  assumes n: "n \<le> 32768" and G: "\<forall>d \<in> set G. is_perm n (data d)"
  shows "\<exists>R. complete_set n G = Inr R \<and> set R \<subseteq> generated n G \<and> ident_perm n \<in> set R \<and>
        (\<forall>p \<in> set R. \<forall>d \<in> set G. \<exists>h \<in> set R. perm_mul p d = Inr h)"
proof -
  have "set [ident_perm n] \<subseteq> generated n G" by (simp add: gen_ident)
  from complete_loop_closed[OF n G this, of 0]
  show ?thesis by (simp add: complete_set_def ident_perm_def)
qed

lemma closed_under_generated:
  assumes n: "n \<le> 32768" and G: "\<forall>d \<in> set G. is_perm n (data d)"
    and R: "set R \<subseteq> generated n G"
    and cl: "\<forall>p \<in> set R. \<forall>d \<in> set G. \<exists>h \<in> set R. perm_mul p d = Inr h"
    and p: "p \<in> set R"
  shows "q \<in> generated n G \<Longrightarrow> \<exists>r \<in> set R. perm_mul p q = Inr r"
proof (induction rule: generated.induct)
  case gen_ident
  have "is_perm n (data p)" using generated_valid[OF n G] R p by blast
  then show ?case using perm_mul_ident_right[OF _ n] p by blast
next
  case (gen_step q d h)
  from gen_step.IH obtain r where r: "r \<in> set R" "perm_mul p q = Inr r" by blast
  have pv: "is_perm n (data p)" using generated_valid[OF n G] R p by blast
  have qv: "is_perm n (data q)" using generated_valid[OF n G gen_step.hyps(1)] .
  have dv: "is_perm n (data d)" using G gen_step.hyps(2) by blast
  have "perm_mul r d = perm_mul p h"
    using perm_mul_assoc[OF pv qv dv r(2) gen_step.hyps(3)] .
  moreover obtain r' where r': "r' \<in> set R" "perm_mul r d = Inr r'"
    using cl r(1) gen_step.hyps(2) by blast
  ultimately have "perm_mul p h = Inr r'" by simp
  then show ?case using r'(1) by blast
qed

lemma complete_set_closed:
  assumes "n \<le> 32768" and "\<forall>d \<in> set G. is_perm n (data d)"
  shows "\<exists>R. complete_set n G = Inr R \<and>
           \<lparr>data = map int [0..<n], negative = False\<rparr> \<in> set R \<and>
           (\<forall>p \<in> set R. is_perm n (data p)) \<and>
           (\<forall>p \<in> set R. \<forall>q \<in> set R. \<exists>r \<in> set R. perm_mul p q = Inr r)"
proof -
  from complete_set_generated[OF assms] obtain R where R:
    "complete_set n G = Inr R" "set R \<subseteq> generated n G" "ident_perm n \<in> set R"
    "\<forall>p \<in> set R. \<forall>d \<in> set G. \<exists>h \<in> set R. perm_mul p d = Inr h"
    by blast
  have "\<lparr>data = map int [0..<n], negative = False\<rparr> \<in> set R"
    using R(3) ident_small[OF assms(1)] by (simp add: ident_perm_def)
  moreover have "\<forall>p \<in> set R. is_perm n (data p)"
    using generated_valid[OF assms] R(2) by blast
  moreover have "\<forall>p \<in> set R. \<forall>q \<in> set R. \<exists>r \<in> set R. perm_mul p q = Inr r"
    using closed_under_generated[OF assms R(2) R(4)] R(2) by blast
  ultimately show ?thesis using R(1) by blast
qed

text \<open>
  Claim C4, as amended: for every \<open>n \<le> 32768\<close> (the indices a \<open>vector<int16_t>\<close>
  can hold) and every generator list \<open>G\<close> of permutations of \<open>{0..n-1}\<close>,
  \<open>complete_set n G\<close> returns a list that contains the identity permutation, whose
  elements all are bijections on \<open>{0..n-1}\<close>, and that is closed under \<open>operator*\<close>:
  the product of any two of its elements is again one of its elements.
\<close>

theorem complete_set_group:
  assumes "n \<le> 32768" and "\<forall>d \<in> set G. is_perm n (data d)"
  shows "\<exists>R. complete_set n G = Inr R \<and>
           \<lparr>data = map int [0..<n], negative = False\<rparr> \<in> set R \<and>
           (\<forall>p \<in> set R. is_perm n (data p)) \<and>
           (\<forall>p \<in> set R. \<forall>q \<in> set R. \<exists>r \<in> set R. perm_mul p q = Inr r)"
  using assms by (rule complete_set_closed)

text \<open>
  Claim C4 as stated (for every \<open>n\<close>) fails at \<open>n = 32769\<close> with no generators:
  \<open>ident[32768] = i\<close> stores \<open>-32768\<close> into the \<open>int16_t\<close> vector, so the only
  element returned is not a bijection on \<open>{0..n-1}\<close>.
\<close>

theorem complete_set_int16_counterexample:
  "complete_set 32769 [] = Inr [\<lparr>data = ident 32769, negative = False\<rparr>] \<and>
   \<not> is_perm 32769 (ident 32769)"
proof
  show "complete_set 32769 [] = Inr [\<lparr>data = ident 32769, negative = False\<rparr>]"
    unfolding complete_set_def
    by (simp add: complete_loop.simps[of _ 0] complete_loop.simps[of _ "Suc 0"])
  have "(32768::nat) \<in> set [0..<32769]" by (simp del: upt_Suc upt_rec_numeral)
  then have "to_int16 (int 32768) \<in> set (ident 32769)"
    unfolding ident_def set_map by (rule imageI)
  moreover have "to_int16 (int 32768) = - 32768" by (simp add: to_int16_def)
  ultimately have "- 32768 \<in> set (ident 32769)" by simp
  then show "\<not> is_perm 32769 (ident 32769)"
    unfolding is_perm_def by auto
qed


lemma is_perm_2_swap: "is_perm 2 [1, 0]"
proof -
  have "{0..<2::int} = {1, 0}" by auto
  then show ?thesis by (simp add: is_perm_def)
qed


lemma complete_set_two_symmetric: "complete_set 2 [\<lparr>data = [1, 0], negative = False\<rparr>] =
     Inr [\<lparr>data = [0, 1], negative = False\<rparr>, \<lparr>data = [1, 0], negative = False\<rparr>]"
  by code_simp

lemma perm_mul_swap_swap: "perm_mul \<lparr>data = [1, 0], negative = False\<rparr> \<lparr>data = [1, 0], negative = False\<rparr> =
     Inr \<lparr>data = [0, 1], negative = False\<rparr>"
  by code_simp


theorem complete_set_group_witness:
  "(2::nat) \<le> 32768 \<and> is_perm 2 [1, 0] \<and>
   complete_set 2 [\<lparr>data = [1, 0], negative = False\<rparr>] =
     Inr [\<lparr>data = [0, 1], negative = False\<rparr>, \<lparr>data = [1, 0], negative = False\<rparr>] \<and>
   perm_mul \<lparr>data = [1, 0], negative = False\<rparr> \<lparr>data = [1, 0], negative = False\<rparr> =
     Inr \<lparr>data = [0, 1], negative = False\<rparr>"
  using complete_set_group[of 2 "[\<lparr>data = [1, 0], negative = False\<rparr>]"] is_perm_2_swap complete_set_two_symmetric perm_mul_swap_swap
  by simp

section \<open>WickTensor\<close>

text \<open>
  \<open>struct WickTensor\<close>. The fields \<open>name\<close> and \<open>type\<close> are \<open>tname\<close> and \<open>ttype\<close> here
  (\<open>name\<close> is the field of \<open>WickIndex\<close>).
\<close>

record WickTensor =
  tname :: string
  indices :: "WickIndex list"
  perms :: "WickPermutation list"
  ttype :: WickTensorTypes

text \<open>
  \<open>reset_permutations\<close>: a permutation is dropped when it moves an index onto a slot
  whose index has a disjoint, non-empty type mask. The inner loop stops at the first
  such slot, so later slots are not read.
\<close>

fun perm_type_valid :: "WickIndex list \<Rightarrow> int list \<Rightarrow> nat list \<Rightarrow> error + bool" where
  "perm_type_valid idx d [] = Inr True"
| "perm_type_valid idx d (i # rest) =
     (if i < length d \<and> 0 \<le> d ! i \<and> d ! i < int (length idx)
      then (if types (idx ! nat (d ! i)) AND types (idx ! i) = None_t \<and>
               types (idx ! nat (d ! i)) \<noteq> None_t \<and> types (idx ! i) \<noteq> None_t
            then Inr False
            else perm_type_valid idx d rest)
      else Inl OutOfRange)"

fun reset_permutations :: "WickIndex list \<Rightarrow> WickPermutation list
    \<Rightarrow> error + WickPermutation list" where
  "reset_permutations idx [] = Inr []"
| "reset_permutations idx (perm # ps) =
     bindE (perm_type_valid idx (data perm) [0..<length idx]) (\<lambda>valid.
     bindE (reset_permutations idx ps) (\<lambda>rperms.
       Inr (if valid then perm # rperms else rperms)))"

text \<open>The constructor \<open>WickTensor(name, indices, perms, type)\<close>.\<close>

definition WickTensor_new :: "string \<Rightarrow> WickIndex list \<Rightarrow> WickPermutation list
    \<Rightarrow> WickTensorTypes \<Rightarrow> error + WickTensor" where
  "WickTensor_new nm idx ps ty =
     bindE (complete_set (length idx) ps) (\<lambda>cs.
     bindE (reset_permutations idx cs) (\<lambda>rp.
       Inr \<lparr>tname = nm, indices = idx, perms = rp, ttype = ty\<rparr>))"

text \<open>\<open>WickTensor::operator*(const WickPermutation &)\<close>.\<close>

definition permute_indices :: "WickIndex list \<Rightarrow> int list \<Rightarrow> error + WickIndex list" where
  "permute_indices idx d =
     (if list_all (\<lambda>i. i < length d \<and> 0 \<le> d ! i \<and> d ! i < int (length idx)) [0..<length idx]
      then Inr (map (\<lambda>i. idx ! nat (d ! i)) [0..<length idx])
      else Inl OutOfRange)"

definition tensor_mul :: "WickTensor \<Rightarrow> WickPermutation \<Rightarrow> error + WickTensor" where
  "tensor_mul t perm =
     bindE (permute_indices (indices t) (data perm)) (\<lambda>xindices.
       WickTensor_new (tname t) xindices (perms t) (ttype t))"

text \<open>
  \<open>WickTensor::sort(double &factor)\<close>: the smallest index tuple among the tensor and
  its images under \<open>perms\<close>, the first one found; the factor changes sign when the
  permutation that gave it is negative.
\<close>

fun sort_loop :: "WickTensor \<Rightarrow> WickPermutation list \<Rightarrow> WickTensor \<times> bool
    \<Rightarrow> error + WickTensor \<times> bool" where
  "sort_loop t [] s = Inr s"
| "sort_loop t (perm # ps) s =
     bindE (tensor_mul t perm) (\<lambda>z.
       sort_loop t ps (if indices z < indices (fst s) then (z, negative perm) else s))"

definition tensor_sort :: "WickTensor \<Rightarrow> 'f::uminus \<Rightarrow> error + WickTensor \<times> 'f" where
  "tensor_sort t factor =
     bindE (sort_loop t (perms t) (t, False)) (\<lambda>s.
       Inr (fst s, if snd s then - factor else factor))"


subsection \<open>Idempotence of canonicalisation\<close>

lemma perm_type_valid_ok:
  assumes "is_perm (length idx) d"
  shows "set js \<subseteq> {0..<length idx} \<Longrightarrow> \<exists>b. perm_type_valid idx d js = Inr b"
proof (induction js)
  case Nil
  then show ?case by auto
next
  case (Cons i js)
  then have i: "i < length idx" by simp
  have "length d = length idx" using assms by (simp add: is_perm_def)
  then have "i < length d \<and> 0 \<le> d ! i \<and> d ! i < int (length idx)"
    using is_perm_nth[OF assms i] i by simp
  then show ?case using Cons by auto
qed

lemma reset_permutations_ok:
  "\<forall>p \<in> set ps. is_perm (length idx) (data p) \<Longrightarrow>
   \<exists>rp. reset_permutations idx ps = Inr rp \<and> set rp \<subseteq> set ps"
proof (induction ps)
  case Nil
  then show ?case by simp
next
  case (Cons p ps)
  then obtain rp where rp: "reset_permutations idx ps = Inr rp" "set rp \<subseteq> set ps"
    by auto
  have "is_perm (length idx) (data p)" using Cons.prems by simp
  from perm_type_valid_ok[OF this, of "[0..<length idx]"]
  obtain b where "perm_type_valid idx (data p) [0..<length idx] = Inr b" by auto
  then show ?case using rp by (auto simp: bindE_def)
qed

lemma permute_indices_ok:
  assumes "is_perm (length idx) d"
  shows "permute_indices idx d = Inr (map (\<lambda>i. idx ! nat (d ! i)) [0..<length idx])"
proof -
  have "length d = length idx" using assms by (simp add: is_perm_def)
  then have "list_all (\<lambda>i. i < length d \<and> 0 \<le> d ! i \<and> d ! i < int (length idx)) [0..<length idx]"
    using is_perm_nth[OF assms] by (simp add: list_all_iff)
  then show ?thesis by (simp add: permute_indices_def)
qed

lemma tensor_mul_ok:
  assumes n: "length (indices t) \<le> 32768"
    and P: "\<forall>p \<in> set (perms t). is_perm (length (indices t)) (data p)"
    and q: "is_perm (length (indices t)) (data q)"
  shows "\<exists>z. tensor_mul t q = Inr z \<and>
           indices z = map (\<lambda>i. indices t ! nat (data q ! i)) [0..<length (indices t)] \<and>
           set (perms z) \<subseteq> generated (length (indices t)) (perms t)"
proof -
  let ?n = "length (indices t)"
  let ?x = "map (\<lambda>i. indices t ! nat (data q ! i)) [0..<?n]"
  have lx: "length ?x = ?n" by simp
  from complete_set_generated[OF n P] obtain cs where cs:
    "complete_set ?n (perms t) = Inr cs" "set cs \<subseteq> generated ?n (perms t)"
    by blast
  have "\<forall>p \<in> set cs. is_perm (length ?x) (data p)"
    using generated_valid[OF n P] cs(2) by auto
  from reset_permutations_ok[OF this] obtain rp where rp:
    "reset_permutations ?x cs = Inr rp" "set rp \<subseteq> set cs"
    by blast
  have "tensor_mul t q = Inr \<lparr>tname = tname t, indices = ?x, perms = rp, ttype = ttype t\<rparr>"
    using cs(1) rp(1) lx
    by (simp add: tensor_mul_def permute_indices_ok[OF q] WickTensor_new_def bindE_def)
  then show ?thesis using rp(2) cs(2) by auto
qed

lemma sort_loop_min:
  "sort_loop t ps s0 = Inr s \<Longrightarrow>
     indices (fst s) \<le> indices (fst s0) \<and>
     (\<forall>p \<in> set ps. \<forall>z. tensor_mul t p = Inr z \<longrightarrow> indices (fst s) \<le> indices z) \<and>
     (s = s0 \<or> (\<exists>p \<in> set ps. tensor_mul t p = Inr (fst s)))"
proof (induction ps arbitrary: s0)
  case Nil
  then show ?case by simp
next
  case (Cons perm ps)
  from Cons.prems obtain z where z: "tensor_mul t perm = Inr z"
    and rest: "sort_loop t ps (if indices z < indices (fst s0) then (z, negative perm) else s0) = Inr s"
    by (auto simp: bindE_def split: sum.splits)
  let ?s1 = "if indices z < indices (fst s0) then (z, negative perm) else s0"
  note ih = Cons.IH[OF rest]
  have le1: "indices (fst ?s1) \<le> indices (fst s0)" "indices (fst ?s1) \<le> indices z"
    by auto
  have a: "indices (fst s) \<le> indices (fst s0)"
    using ih le1(1) by (meson order_trans)
  have b: "indices (fst s) \<le> indices z"
    using ih le1(2) by (meson order_trans)
  have c: "s = s0 \<or> (\<exists>p \<in> set (perm # ps). tensor_mul t p = Inr (fst s))"
  proof -
    from ih have "s = ?s1 \<or> (\<exists>p \<in> set ps. tensor_mul t p = Inr (fst s))" by blast
    then show ?thesis
    proof
      assume "s = ?s1"
      then show ?thesis using z by (auto split: if_splits)
    next
      assume "\<exists>p \<in> set ps. tensor_mul t p = Inr (fst s)"
      then show ?thesis by auto
    qed
  qed
  have d: "\<forall>p \<in> set (perm # ps). \<forall>z. tensor_mul t p = Inr z \<longrightarrow> indices (fst s) \<le> indices z"
    using ih b z by auto
  show ?case using a c d by blast
qed

lemma sort_loop_total:
  "\<forall>p \<in> set ps. \<exists>z. tensor_mul t p = Inr z \<Longrightarrow> \<exists>s. sort_loop t ps s0 = Inr s"
proof (induction ps arbitrary: s0)
  case Nil
  then show ?case by simp
next
  case (Cons perm ps)
  then obtain z where "tensor_mul t perm = Inr z" by auto
  then show ?case using Cons by (simp add: bindE_def)
qed

lemma sort_loop_fixed:
  "\<forall>q \<in> set qs. \<exists>z. tensor_mul x q = Inr z \<and> \<not> indices z < indices (fst s0) \<Longrightarrow>
   sort_loop x qs s0 = Inr s0"
proof (induction qs)
  case Nil
  then show ?case by simp
next
  case (Cons q qs)
  then obtain z where "tensor_mul x q = Inr z" "\<not> indices z < indices (fst s0)" by auto
  then show ?case using Cons by (simp add: bindE_def)
qed

lemma perm_mul_ident_left:
  assumes d: "is_perm n (data d)" and n: "n \<le> 32768"
  shows "perm_mul (ident_perm n) d = Inr d"
proof -
  have ld: "length (data d) = n" using d by (simp add: is_perm_def)
  have "map (\<lambda>i. data (ident_perm n) ! nat (data d ! i)) [0..<n] = data d"
  proof (rule nth_equalityI)
    show "length (map (\<lambda>i. data (ident_perm n) ! nat (data d ! i)) [0..<n]) = length (data d)"
      using ld by simp
    fix i assume "i < length (map (\<lambda>i. data (ident_perm n) ! nat (data d ! i)) [0..<n])"
    then have i: "i < n" by simp
    from is_perm_nth[OF d i] show
      "map (\<lambda>i. data (ident_perm n) ! nat (data d ! i)) [0..<n] ! i = data d ! i"
      using i by (simp add: ident_perm_def ident_small[OF n])
  qed
  moreover have "is_perm n (data (ident_perm n))"
    using is_perm_ident[OF n] by (simp add: ident_perm_def)
  ultimately show ?thesis
    using perm_mul_valid(1)[OF _ d, of "ident_perm n"] by (simp add: ident_perm_def)
qed

lemma generated_of_closed:
  assumes n: "n \<le> 32768" and P: "\<forall>p \<in> set P. is_perm n (data p)"
    and cl: "\<forall>p \<in> set P. \<forall>q \<in> set P. \<exists>r \<in> set P. perm_mul p q = Inr r"
  shows "q \<in> generated n P \<Longrightarrow> q = ident_perm n \<or> q \<in> set P"
proof (induction rule: generated.induct)
  case gen_ident
  then show ?case by simp
next
  case (gen_step p d h)
  have dv: "is_perm n (data d)" using P gen_step.hyps(2) by blast
  from gen_step.IH show ?case
  proof
    assume "p = ident_perm n"
    then have "h = d" using perm_mul_ident_left[OF dv n] gen_step.hyps(3) by simp
    then show ?thesis using gen_step.hyps(2) by simp
  next
    assume "p \<in> set P"
    then obtain r where "r \<in> set P" "perm_mul p d = Inr r"
      using cl gen_step.hyps(2) by blast
    then show ?thesis using gen_step.hyps(3) by simp
  qed
qed


text \<open>
  Claim C6, as amended: for every tensor \<open>t\<close> (of at most 32768 indices) whose \<open>perms\<close>
  are permutations of its index positions and are closed under \<open>operator*\<close>, and
  every factor \<open>f\<close>, \<open>t.sort(f)\<close> returns a tensor \<open>t1\<close> and a factor \<open>f1\<close>, and
  \<open>t1.sort(f1)\<close> returns \<open>t1\<close> again and leaves \<open>f1\<close> unchanged.
\<close>

theorem tensor_sort_idempotent:
  fixes f :: "'f::uminus"
  assumes n: "length (indices t) \<le> 32768"
    and P: "\<forall>p \<in> set (perms t). is_perm (length (indices t)) (data p)"
    and cl: "\<forall>p \<in> set (perms t). \<forall>q \<in> set (perms t). \<exists>r \<in> set (perms t). perm_mul p q = Inr r"
  shows "\<exists>t1 f1. tensor_sort t f = Inr (t1, f1) \<and> tensor_sort t1 f1 = Inr (t1, f1)"
proof -
  let ?n = "length (indices t)"
  have tot: "\<forall>p \<in> set (perms t). \<exists>z. tensor_mul t p = Inr z"
    using tensor_mul_ok[OF n P] P by blast
  from sort_loop_total[OF tot] obtain s where s: "sort_loop t (perms t) (t, False) = Inr s"
    by blast
  define x where "x = fst s"
  from sort_loop_min[OF s] have
    min: "\<forall>p \<in> set (perms t). \<forall>z. tensor_mul t p = Inr z \<longrightarrow> indices x \<le> indices z"
    and orig: "s = (t, False) \<or> (\<exists>p \<in> set (perms t). tensor_mul t p = Inr x)"
    by (simp_all add: x_def)
  have fixed: "\<forall>q \<in> set (perms x). \<exists>z. tensor_mul x q = Inr z \<and> \<not> indices z < indices x"
    using orig
  proof
    assume "s = (t, False)"
    then have xt: "x = t" by (simp add: x_def)
    show ?thesis
    proof
      fix q assume q: "q \<in> set (perms x)"
      then obtain z where z: "tensor_mul t q = Inr z" using tot xt by blast
      then have "indices x \<le> indices z" using min q xt by blast
      then show "\<exists>z. tensor_mul x q = Inr z \<and> \<not> indices z < indices x"
        using z xt by auto
    qed
  next
    assume "\<exists>p \<in> set (perms t). tensor_mul t p = Inr x"
    then obtain p where p: "p \<in> set (perms t)" "tensor_mul t p = Inr x" by blast
    have pv: "is_perm ?n (data p)" using P p(1) by blast
    from tensor_mul_ok[OF n P pv] p(2) have
      ix: "indices x = map (\<lambda>i. indices t ! nat (data p ! i)) [0..<?n]"
      and px: "set (perms x) \<subseteq> generated ?n (perms t)"
      by auto
    have lx: "length (indices x) = ?n" using ix by simp
    have Px: "\<forall>q \<in> set (perms x). is_perm (length (indices x)) (data q)"
      using generated_valid[OF n P] px lx by auto
    have nx: "length (indices x) \<le> 32768" using n lx by simp
    show ?thesis
    proof
      fix q assume q: "q \<in> set (perms x)"
      then have qv: "is_perm ?n (data q)" using Px lx by auto
      have qv': "is_perm (length (indices x)) (data q)" using qv lx by simp
      from tensor_mul_ok[OF nx Px qv'] obtain z where z: "tensor_mul x q = Inr z"
        "indices z = map (\<lambda>i. indices x ! nat (data q ! i)) [0..<?n]"
        using lx by auto
      have iz: "indices z = map (\<lambda>i. indices t ! nat (data p ! nat (data q ! i))) [0..<?n]"
        using is_perm_nth(3)[OF qv] by (auto simp: z(2) ix)
      from generated_of_closed[OF n P cl] px q
      have "q = ident_perm ?n \<or> q \<in> set (perms t)" by blast
      then have "indices x \<le> indices z"
      proof
        assume "q = ident_perm ?n"
        then have "indices z = indices x"
          unfolding iz ix by (simp add: ident_perm_def ident_small[OF n])
        then show ?thesis by simp
      next
        assume qP: "q \<in> set (perms t)"
        then obtain r where r: "r \<in> set (perms t)" "perm_mul p q = Inr r"
          using cl p(1) by blast
        have dr: "data r = map (\<lambda>i. data p ! nat (data q ! i)) [0..<?n]"
          using perm_mul_valid(1)[OF pv qv] r(2) by auto
        have rv: "is_perm ?n (data r)" using P r(1) by blast
        from tensor_mul_ok[OF n P rv] obtain zr where zr: "tensor_mul t r = Inr zr"
          "indices zr = map (\<lambda>i. indices t ! nat (data r ! i)) [0..<?n]"
          by blast
        have "indices zr = indices z"
          unfolding zr(2) iz by (simp add: dr)
        moreover have "indices x \<le> indices zr" using min r(1) zr(1) by blast
        ultimately show ?thesis by simp
      qed
      then show "\<exists>z. tensor_mul x q = Inr z \<and> \<not> indices z < indices x"
        using z(1) by auto
    qed
  qed
  have second: "sort_loop x (perms x) (x, False) = Inr (x, False)"
    using sort_loop_fixed[of "perms x" x "(x, False)"] fixed by simp
  define f1 where "f1 = (if snd s then - f else f)"
  have "tensor_sort t f = Inr (x, f1)"
    using s by (simp add: tensor_sort_def bindE_def x_def f1_def)
  moreover have "tensor_sort x f1 = Inr (x, f1)"
    using second by (simp add: tensor_sort_def bindE_def)
  ultimately show ?thesis by blast
qed

text \<open>
  Claim C6 as stated fails for a fully antisymmetric three-index tensor whose indices
  carry the type masks External|Active, Inactive|Active and Inactive: the constructor
  keeps only the permutations that are type-compatible with the current index tuple,
  which is not a group, and the tensor returned by \<open>sort\<close> carries a different
  filtered set. The second \<open>sort\<close> finds a smaller tuple and flips the sign again.
\<close>

theorem tensor_sort_not_idempotent_counterexample:
  "WickTensor_new ''T'' [WickIndex ''a'' 6, WickIndex ''b'' 3, WickIndex ''c'' 1]
       [\<lparr>data = [1, 0, 2], negative = True\<rparr>, \<lparr>data = [0, 2, 1], negative = True\<rparr>] Tensor =
     Inr \<lparr>tname = ''T'', indices = [WickIndex ''a'' 6, WickIndex ''b'' 3, WickIndex ''c'' 1],
          perms = [\<lparr>data = [0, 1, 2], negative = False\<rparr>, \<lparr>data = [1, 0, 2], negative = True\<rparr>,
                   \<lparr>data = [0, 2, 1], negative = True\<rparr>],
          ttype = Tensor\<rparr> \<and>
   tensor_sort \<lparr>tname = ''T'', indices = [WickIndex ''a'' 6, WickIndex ''b'' 3, WickIndex ''c'' 1],
          perms = [\<lparr>data = [0, 1, 2], negative = False\<rparr>, \<lparr>data = [1, 0, 2], negative = True\<rparr>,
                   \<lparr>data = [0, 2, 1], negative = True\<rparr>],
          ttype = Tensor\<rparr> (1 :: real) =
     Inr (\<lparr>tname = ''T'', indices = [WickIndex ''b'' 3, WickIndex ''a'' 6, WickIndex ''c'' 1],
           perms = [\<lparr>data = [0, 1, 2], negative = False\<rparr>, \<lparr>data = [1, 0, 2], negative = True\<rparr>,
                    \<lparr>data = [2, 1, 0], negative = True\<rparr>],
           ttype = Tensor\<rparr>, - 1) \<and>
   tensor_sort \<lparr>tname = ''T'', indices = [WickIndex ''b'' 3, WickIndex ''a'' 6, WickIndex ''c'' 1],
           perms = [\<lparr>data = [0, 1, 2], negative = False\<rparr>, \<lparr>data = [1, 0, 2], negative = True\<rparr>,
                    \<lparr>data = [2, 1, 0], negative = True\<rparr>],
           ttype = Tensor\<rparr> (- 1 :: real) =
     Inr (\<lparr>tname = ''T'', indices = [WickIndex ''c'' 1, WickIndex ''a'' 6, WickIndex ''b'' 3],
           perms = [\<lparr>data = [0, 1, 2], negative = False\<rparr>, \<lparr>data = [2, 1, 0], negative = True\<rparr>,
                    \<lparr>data = [0, 2, 1], negative = True\<rparr>],
           ttype = Tensor\<rparr>, 1)"
  by code_simp


lemma perm_type_valid_typeless:
  assumes "is_perm (length idx) d" and "\<forall>wi \<in> set idx. types wi = None_t"
  shows "set js \<subseteq> {0..<length idx} \<Longrightarrow> perm_type_valid idx d js = Inr True"
proof (induction js)
  case Nil
  then show ?case by simp
next
  case (Cons i js)
  then have i: "i < length idx" by simp
  have "length d = length idx" using assms(1) by (simp add: is_perm_def)
  then have "i < length d \<and> 0 \<le> d ! i \<and> d ! i < int (length idx)"
    using is_perm_nth[OF assms(1) i] i by simp
  moreover have "types (idx ! i) = None_t" using assms(2) i by simp
  ultimately show ?case using Cons by simp
qed

lemma reset_permutations_typeless:
  assumes "\<forall>wi \<in> set idx. types wi = None_t"
  shows "\<forall>p \<in> set ps. is_perm (length idx) (data p) \<Longrightarrow> reset_permutations idx ps = Inr ps"
proof (induction ps)
  case Nil
  then show ?case by simp
next
  case (Cons p ps)
  then have "is_perm (length idx) (data p)" by simp
  from perm_type_valid_typeless[OF this assms, of "[0..<length idx]"]
  have "perm_type_valid idx (data p) [0..<length idx] = Inr True" by simp
  then show ?case using Cons by (simp add: bindE_def)
qed

text \<open>
  The constructor gives such a tensor whenever no permutation is filtered out, for
  instance when all indices are typeless.
\<close>

lemma WickTensor_new_typeless:
  assumes "length idx \<le> 32768" and "\<forall>d \<in> set G. is_perm (length idx) (data d)"
    and "\<forall>wi \<in> set idx. types wi = None_t"
  shows "\<exists>t. WickTensor_new nm idx G ty = Inr t \<and> indices t = idx \<and>
           (\<forall>p \<in> set (perms t). is_perm (length idx) (data p)) \<and>
           (\<forall>p \<in> set (perms t). \<forall>q \<in> set (perms t). \<exists>r \<in> set (perms t). perm_mul p q = Inr r)"
proof -
  from complete_set_closed[OF assms(1,2)] obtain R where R:
    "complete_set (length idx) G = Inr R" "\<forall>p \<in> set R. is_perm (length idx) (data p)"
    "\<forall>p \<in> set R. \<forall>q \<in> set R. \<exists>r \<in> set R. perm_mul p q = Inr r"
    by blast
  have "reset_permutations idx R = Inr R"
    using reset_permutations_typeless[OF assms(3) R(2)] .
  then have "WickTensor_new nm idx G ty = Inr \<lparr>tname = nm, indices = idx, perms = R, ttype = ty\<rparr>"
    using R(1) by (simp add: WickTensor_new_def bindE_def)
  then show ?thesis using R(2,3) by simp
qed

lemma tensor_sort_typeless_pair:
  "tensor_sort \<lparr>tname = ''v'', indices = [WickIndex ''j'' 0, WickIndex ''i'' 0],
        perms = [\<lparr>data = [0, 1], negative = False\<rparr>, \<lparr>data = [1, 0], negative = False\<rparr>],
        ttype = Tensor\<rparr> (1 :: real) =
     Inr (\<lparr>tname = ''v'', indices = [WickIndex ''i'' 0, WickIndex ''j'' 0],
        perms = [\<lparr>data = [0, 1], negative = False\<rparr>, \<lparr>data = [1, 0], negative = False\<rparr>],
        ttype = Tensor\<rparr>, 1)"
  by code_simp

theorem tensor_sort_idempotent_witness:
  "tensor_sort \<lparr>tname = ''v'', indices = [WickIndex ''j'' 0, WickIndex ''i'' 0],
        perms = [\<lparr>data = [0, 1], negative = False\<rparr>, \<lparr>data = [1, 0], negative = False\<rparr>],
        ttype = Tensor\<rparr> (1 :: real) =
     Inr (\<lparr>tname = ''v'', indices = [WickIndex ''i'' 0, WickIndex ''j'' 0],
        perms = [\<lparr>data = [0, 1], negative = False\<rparr>, \<lparr>data = [1, 0], negative = False\<rparr>],
        ttype = Tensor\<rparr>, 1) \<and>
   tensor_sort \<lparr>tname = ''v'', indices = [WickIndex ''i'' 0, WickIndex ''j'' 0],
        perms = [\<lparr>data = [0, 1], negative = False\<rparr>, \<lparr>data = [1, 0], negative = False\<rparr>],
        ttype = Tensor\<rparr> (1 :: real) =
     Inr (\<lparr>tname = ''v'', indices = [WickIndex ''i'' 0, WickIndex ''j'' 0],
        perms = [\<lparr>data = [0, 1], negative = False\<rparr>, \<lparr>data = [1, 0], negative = False\<rparr>],
        ttype = Tensor\<rparr>, 1)"
proof -
  let ?t = "\<lparr>tname = ''v'', indices = [WickIndex ''j'' 0, WickIndex ''i'' 0],
        perms = [\<lparr>data = [0, 1], negative = False\<rparr>, \<lparr>data = [1, 0], negative = False\<rparr>],
        ttype = Tensor\<rparr>"
  have h1: "length (indices ?t) \<le> 32768" by simp
  have h2: "\<forall>p \<in> set (perms ?t). is_perm (length (indices ?t)) (data p)" by code_simp
  have h3: "\<forall>p \<in> set (perms ?t). \<forall>q \<in> set (perms ?t). \<exists>r \<in> set (perms ?t). perm_mul p q = Inr r"
    by code_simp
  from tensor_sort_idempotent[OF h1 h2 h3, of "1 :: real"] obtain t1 f1 where
    "tensor_sort ?t (1 :: real) = Inr (t1, f1)" "tensor_sort t1 f1 = Inr (t1, f1)"
    by blast
  then show ?thesis using tensor_sort_typeless_pair by simp
qed

section \<open>WickString\<close>

text \<open>
  \<open>struct WickString\<close>: a factor times a product of tensors, summed over the
  contraction indices. \<open>factor\<close> is a \<open>double\<close> in the source; the model is polymorphic
  in the number type and uses only the operations the source applies to it.
\<close>

record 'f WickString =
  tensors :: "WickTensor list"
  ctr_indices :: "WickIndex set"
  factor :: 'f

subsection \<open>simplify_delta\<close>

text \<open>The state of the loop of \<open>WickString::simplify_delta\<close>.\<close>

record 'f delta_state =
  xtensors :: "WickTensor list"
  xctr_indices :: "WickIndex set"
  xfactor :: 'f
  xidxs :: "nat list"

definition delta_found :: "WickTensor list \<Rightarrow> nat list \<Rightarrow> WickIndex \<Rightarrow> WickIndex \<Rightarrow> bool" where
  "delta_found ts ks ia ib =
     list_ex (\<lambda>k. ttype (ts ! k) = KroneckerDelta \<and>
                  ((indices (ts ! k) ! 0 = ia \<and> indices (ts ! k) ! 1 = ib) \<or>
                   (indices (ts ! k) ! 0 = ib \<and> indices (ts ! k) ! 1 = ia))) ks"

definition replace_index :: "WickIndex \<Rightarrow> WickIndex \<Rightarrow> WickIndex \<Rightarrow> WickTensor \<Rightarrow> WickTensor" where
  "replace_index ia ib ic t =
     t\<lparr>indices := map (\<lambda>w. if w = ia \<or> w = ib then ic else w) (indices t)\<rparr>"

definition replace_others :: "nat \<Rightarrow> WickIndex \<Rightarrow> WickIndex \<Rightarrow> WickIndex \<Rightarrow> WickTensor list
    \<Rightarrow> WickTensor list" where
  "replace_others i ia ib ic ts =
     map (\<lambda>j. if j \<noteq> i then replace_index ia ib ic (ts ! j) else ts ! j) [0..<length ts]"

text \<open>
  One pass of the loop body for position \<open>i\<close>. Reading \<open>indices[0]\<close> and \<open>indices[1]\<close>
  of a Kronecker delta with fewer than two indices is out of range.
\<close>

definition simplify_delta_step :: "nat \<Rightarrow> ('f::zero) delta_state \<Rightarrow> error + 'f delta_state" where
  "simplify_delta_step i st =
     (if ttype (xtensors st ! i) = KroneckerDelta then
        (if length (indices (xtensors st ! i)) < 2 then Inl OutOfRange
         else
           let ia = indices (xtensors st ! i) ! 0; ib = indices (xtensors st ! i) ! 1 in
           if ia \<noteq> ib then
             (if (types ia \<noteq> None_t \<or> types ib \<noteq> None_t) \<and> types ia AND types ib = None_t
              then Inr (st\<lparr>xfactor := 0\<rparr>)
              else if ia \<notin> xctr_indices st \<and> ib \<notin> xctr_indices st then
                (if delta_found (xtensors st) (xidxs st) ia ib then Inr st
                 else Inr (st\<lparr>xidxs := xidxs st @ [i]\<rparr>))
              else
                (if ia \<in> xctr_indices st
                 then Inr (st\<lparr>xctr_indices := xctr_indices st - {ia},
                              xtensors := replace_others i ia ib
                                 (WickIndex (name ib) (types ia AND types ib)) (xtensors st)\<rparr>)
                 else Inr (st\<lparr>xctr_indices := xctr_indices st - {ib},
                              xtensors := replace_others i ia ib
                                 (WickIndex (name ia) (types ia AND types ib)) (xtensors st)\<rparr>)))
           else Inr st)
      else Inr (st\<lparr>xidxs := xidxs st @ [i]\<rparr>))"

fun simplify_delta_loop :: "nat list \<Rightarrow> ('f::zero) delta_state \<Rightarrow> error + 'f delta_state" where
  "simplify_delta_loop [] st = Inr st"
| "simplify_delta_loop (i # rest) st = bindE (simplify_delta_step i st) (simplify_delta_loop rest)"

text \<open>
  The final compaction \<open>xtensors[i] = xtensors[xidxs[i]]\<close> for \<open>i < xidxs.size()\<close>,
  in place and in increasing order, followed by \<open>resize\<close>.
\<close>

definition compact :: "'a list \<Rightarrow> nat list \<Rightarrow> 'a list" where
  "compact xs ks = take (length ks) (foldl (\<lambda>ys i. ys[i := ys ! (ks ! i)]) xs [0..<length ks])"

definition simplify_delta :: "('f::zero) WickString \<Rightarrow> error + 'f WickString" where
  "simplify_delta x =
     bindE (simplify_delta_loop [0..<length (tensors x)]
              \<lparr>xtensors = tensors x, xctr_indices = ctr_indices x, xfactor = factor x, xidxs = []\<rparr>)
       (\<lambda>st. Inr \<lparr>tensors = compact (xtensors st) (xidxs st),
                  ctr_indices = xctr_indices st, factor = xfactor st\<rparr>)"

subsection \<open>Delta simplification\<close>

lemma simplify_delta_loop_append:
  "simplify_delta_loop (as @ bs) st = bindE (simplify_delta_loop as st) (simplify_delta_loop bs)"
  by (induction as arbitrary: st) (auto simp: bindE_def split: sum.splits)

lemma simplify_delta_loop_no_delta:
  "\<forall>i \<in> set js. ttype (xtensors st ! i) \<noteq> KroneckerDelta \<Longrightarrow>
   simplify_delta_loop js st = Inr (st\<lparr>xidxs := xidxs st @ js\<rparr>)"
proof (induction js arbitrary: st)
  case Nil
  then show ?case by simp
next
  case (Cons i js)
  have step: "simplify_delta_step i st = Inr (st\<lparr>xidxs := xidxs st @ [i]\<rparr>)"
    using Cons.prems by (simp add: simplify_delta_step_def)
  have "\<forall>k \<in> set js. ttype (xtensors (st\<lparr>xidxs := xidxs st @ [i]\<rparr>) ! k) \<noteq> KroneckerDelta"
    using Cons.prems by simp
  from Cons.IH[OF this] show ?case using step by (simp add: bindE_def)
qed

lemma compact_aux:
  assumes "\<forall>i < length ks. i \<le> ks ! i \<and> ks ! i < length xs"
  shows "m \<le> length ks \<Longrightarrow>
    foldl (\<lambda>ys i. ys[i := ys ! (ks ! i)]) xs [0..<m] = map (\<lambda>k. xs ! k) (take m ks) @ drop m xs"
proof (induction m)
  case 0
  then show ?case by simp
next
  case (Suc m)
  then have m: "m < length ks" by simp
  let ?ys = "map (\<lambda>k. xs ! k) (take m ks) @ drop m xs"
  have km: "m \<le> ks ! m" "ks ! m < length xs" using assms m by auto
  have mx: "m < length xs" using km by simp
  have len: "length (map (\<lambda>k. xs ! k) (take m ks)) = m" using m by simp
  have rd: "?ys ! (ks ! m) = xs ! (ks ! m)"
    using km len by (simp add: nth_append)
  have "?ys[m := xs ! (ks ! m)] = map (\<lambda>k. xs ! k) (take m ks) @ (drop m xs)[0 := xs ! (ks ! m)]"
    using len by (simp add: list_update_append)
  also have "(drop m xs)[0 := xs ! (ks ! m)] = xs ! (ks ! m) # drop (Suc m) xs"
    using mx by (simp add: Cons_nth_drop_Suc[symmetric])
  also have "map (\<lambda>k. xs ! k) (take m ks) @ xs ! (ks ! m) # drop (Suc m) xs =
             map (\<lambda>k. xs ! k) (take (Suc m) ks) @ drop (Suc m) xs"
    using m by (simp add: take_Suc_conv_app_nth)
  finally have upd: "?ys[m := xs ! (ks ! m)] = map (\<lambda>k. xs ! k) (take (Suc m) ks) @ drop (Suc m) xs" .
  show ?case
    using Suc.IH m rd upd by simp
qed

lemma compact_eq_map:
  assumes "\<forall>i < length ks. i \<le> ks ! i \<and> ks ! i < length xs"
  shows "compact xs ks = map (\<lambda>k. xs ! k) ks"
  using compact_aux[OF assms, of "length ks"] by (simp add: compact_def)

lemma skip_positions:
  assumes "p < n"
  shows "\<forall>i < length ([0..<p] @ [Suc p..<n]). i \<le> ([0..<p] @ [Suc p..<n]) ! i \<and>
           ([0..<p] @ [Suc p..<n]) ! i < n"
  using assms by (auto simp: nth_append)

lemma replace_others_length [simp]: "length (replace_others i ia ib ic ts) = length ts"
  by (simp add: replace_others_def)

lemma replace_others_nth:
  "j < length ts \<Longrightarrow> replace_others i ia ib ic ts ! j =
     (if j \<noteq> i then replace_index ia ib ic (ts ! j) else ts ! j)"
  by (simp add: replace_others_def)

lemma replace_index_ttype [simp]: "ttype (replace_index ia ib ic t) = ttype t"
  by (simp add: replace_index_def)

lemma replace_others_skip:
  "map (\<lambda>k. replace_others (length pre) ia ib ic (pre @ d # post) ! k)
       ([0..<length pre] @ [Suc (length pre)..<length (pre @ d # post)]) =
   map (replace_index ia ib ic) (pre @ post)"
proof -
  let ?p = "length pre" and ?ts = "pre @ d # post"
  have a: "map (\<lambda>k. replace_others ?p ia ib ic ?ts ! k) [0..<?p] = map (replace_index ia ib ic) pre"
    by (rule nth_equalityI) (simp_all add: replace_others_nth nth_append)
  have b: "map (\<lambda>k. replace_others ?p ia ib ic ?ts ! k) [Suc ?p..<length ?ts] =
           map (replace_index ia ib ic) post"
    by (rule nth_equalityI) (simp_all add: replace_others_nth nth_append del: upt_Suc)
  show ?thesis using a b by simp
qed

lemma simplify_delta_single:
  fixes x :: "('f::zero) WickString"
  assumes tx: "tensors x = pre @ d # post"
    and d: "ttype d = KroneckerDelta" "indices d = [ia, ib]"
    and others: "\<forall>t \<in> set (pre @ post). ttype t \<noteq> KroneckerDelta"
    and ctr: "(ia \<in> ctr_indices x \<and> ib \<notin> ctr_indices x \<and> i = ia \<and> j = ib) \<or>
              (ib \<in> ctr_indices x \<and> ia \<notin> ctr_indices x \<and> i = ib \<and> j = ia)"
    and compat: "types i AND types j \<noteq> None_t \<or> (types i = None_t \<and> types j = None_t)"
  shows "simplify_delta x =
     Inr \<lparr>tensors = map (replace_index i j (WickIndex (name j) (types i AND types j))) (pre @ post),
          ctr_indices = ctr_indices x - {i}, factor = factor x\<rparr>"
proof -
  let ?p = "length pre" and ?n = "length (pre @ d # post)"
  let ?ic = "WickIndex (name j) (types i AND types j)"
  let ?st0 = "\<lparr>xtensors = tensors x, xctr_indices = ctr_indices x, xfactor = factor x, xidxs = []\<rparr>"
  let ?st1 = "?st0\<lparr>xidxs := [0..<?p]\<rparr>"
  let ?st2 = "?st1\<lparr>xctr_indices := ctr_indices x - {i},
                     xtensors := replace_others ?p ia ib ?ic (tensors x)\<rparr>"
  have ne: "ia \<noteq> ib" using ctr by auto
  have "[0..<?p + Suc (length post)] = [0..<?p] @ [?p..<?p + Suc (length post)]"
    by (rule upt_add_eq_append) simp
  then have "[0..<?n] = [0..<?p] @ [?p..<?n]"
    by simp
  moreover have "[?p..<?n] = ?p # [Suc ?p..<?n]"
    by (rule upt_conv_Cons) simp
  ultimately have split: "[0..<?n] = [0..<?p] @ ?p # [Suc ?p..<?n]"
    by simp
  have pre_nd: "\<forall>k \<in> set [0..<?p]. ttype (xtensors ?st0 ! k) \<noteq> KroneckerDelta"
    using others tx by (auto simp: nth_append)
  have l1: "simplify_delta_loop [0..<?p] ?st0 = Inr ?st1"
    using simplify_delta_loop_no_delta[OF pre_nd] by simp
  have atp: "xtensors ?st1 ! ?p = d" using tx by simp
  have nz: "\<not> ((types ia \<noteq> None_t \<or> types ib \<noteq> None_t) \<and> types ia AND types ib = None_t)"
    using compat ctr by (auto simp: and.commute)
  have icc: "(if ia \<in> ctr_indices x then WickIndex (name ib) (types ia AND types ib)
              else WickIndex (name ia) (types ia AND types ib)) = ?ic"
    using ctr by (auto simp: and.commute)
  have l2: "simplify_delta_step ?p ?st1 = Inr ?st2"
    unfolding simplify_delta_step_def atp using d ne nz ctr
    by (auto simp: Let_def and.commute)
  have post_nd: "\<forall>k \<in> set [Suc ?p..<?n]. ttype (xtensors ?st2 ! k) \<noteq> KroneckerDelta"
  proof
    fix k assume "k \<in> set [Suc ?p..<?n]"
    then have k: "Suc ?p \<le> k" "k < ?n" by (simp_all del: upt_Suc)
    then have "(pre @ d # post) ! k = post ! (k - Suc ?p)" "k - Suc ?p < length post"
      by (auto simp: nth_append nth_Cons')
    then have "ttype ((pre @ d # post) ! k) \<noteq> KroneckerDelta"
      using others by simp
    then show "ttype (xtensors ?st2 ! k) \<noteq> KroneckerDelta"
      using k tx by (simp add: replace_others_nth)
  qed
  have l3: "simplify_delta_loop [Suc ?p..<?n] ?st2 = Inr (?st2\<lparr>xidxs := [0..<?p] @ [Suc ?p..<?n]\<rparr>)"
    using simplify_delta_loop_no_delta[OF post_nd] by simp
  have loop: "simplify_delta_loop [0..<?n] ?st0 = Inr (?st2\<lparr>xidxs := [0..<?p] @ [Suc ?p..<?n]\<rparr>)"
    unfolding split using l1 l2 l3
    by (simp add: simplify_delta_loop_append bindE_def)
  have "?p < ?n" by simp
  from skip_positions[OF this]
  have "compact (replace_others ?p ia ib ?ic (pre @ d # post)) ([0..<?p] @ [Suc ?p..<?n]) =
        map (\<lambda>k. replace_others ?p ia ib ?ic (pre @ d # post) ! k) ([0..<?p] @ [Suc ?p..<?n])"
    by (intro compact_eq_map) simp
  also have "\<dots> = map (replace_index ia ib ?ic) (pre @ post)"
    by (rule replace_others_skip)
  also have "replace_index ia ib ?ic = replace_index i j ?ic"
    using ctr by (auto simp: replace_index_def fun_eq_iff)
  finally have cmp: "compact (replace_others ?p ia ib ?ic (pre @ d # post)) ([0..<?p] @ [Suc ?p..<?n]) =
        map (replace_index i j ?ic) (pre @ post)" .
  show ?thesis
    unfolding simplify_delta_def using loop cmp tx by (simp add: bindE_def)
qed

lemma conflict_preserved:
  assumes a: "types a \<noteq> 0" and b: "types b \<noteq> 0" and ab: "types a AND types b = 0"
    and br: "\<not> ((types ia \<noteq> 0 \<or> types ib \<noteq> 0) \<and> types ia AND types ib = 0)"
    and ic: "types ic = types ia AND types ib"
  shows "types (if a = ia \<or> a = ib then ic else a) \<noteq> 0 \<and>
         types (if b = ia \<or> b = ib then ic else b) \<noteq> 0 \<and>
         types (if a = ia \<or> a = ib then ic else a) AND types (if b = ia \<or> b = ib then ic else b) = 0"
proof -
  have ne: "a \<noteq> b" using a ab by auto
  have m1: "(types ia AND types ib) AND t = 0" if "types ia AND t = 0" for t :: "8 word"
  proof -
    have "(types ia AND types ib) AND t = types ib AND (types ia AND t)"
      by (simp add: ac_simps)
    then show ?thesis using that by simp
  qed
  have m2: "(types ia AND types ib) AND t = 0" if "types ib AND t = 0" for t :: "8 word"
  proof -
    have "(types ia AND types ib) AND t = types ia AND (types ib AND t)"
      by (simp add: ac_simps)
    then show ?thesis using that by simp
  qed
  have m3: "t AND (types ia AND types ib) = 0" if "t AND types ia = 0" for t :: "8 word"
  proof -
    have "t AND (types ia AND types ib) = (t AND types ia) AND types ib"
      by (simp add: ac_simps)
    then show ?thesis using that by simp
  qed
  have m4: "t AND (types ia AND types ib) = 0" if "t AND types ib = 0" for t :: "8 word"
  proof -
    have "t AND (types ia AND types ib) = (t AND types ib) AND types ia"
      by (simp add: ac_simps)
    then show ?thesis using that by simp
  qed
  consider (none) "\<not> (a = ia \<or> a = ib)" "\<not> (b = ia \<or> b = ib)"
    | (onlya) "a = ia \<or> a = ib" "\<not> (b = ia \<or> b = ib)"
    | (onlyb) "\<not> (a = ia \<or> a = ib)" "b = ia \<or> b = ib"
    | (both) "a = ia \<or> a = ib" "b = ia \<or> b = ib"
    by blast
  then show ?thesis
  proof cases
    case none
    then show ?thesis using a b ab by simp
  next
    case onlya
    then have "types ia AND types ib \<noteq> 0" using br a by auto
    moreover have "(types ia AND types ib) AND types b = 0"
    proof -
      from onlya(1) show ?thesis
      proof
        assume "a = ia" then show ?thesis using ab by (intro m1) simp
      next
        assume "a = ib" then show ?thesis using ab by (intro m2) simp
      qed
    qed
    ultimately show ?thesis using onlya b ic by simp
  next
    case onlyb
    then have "types ia AND types ib \<noteq> 0" using br b by auto
    moreover have "types a AND (types ia AND types ib) = 0"
    proof -
      from onlyb(2) show ?thesis
      proof
        assume "b = ia" then show ?thesis using ab by (intro m3) simp
      next
        assume "b = ib" then show ?thesis using ab by (intro m4) simp
      qed
    qed
    ultimately show ?thesis using onlyb a ic by simp
  next
    case both
    then have "(a = ia \<and> b = ib) \<or> (a = ib \<and> b = ia)" using ne by auto
    then have "types ia AND types ib = 0" using ab by (auto simp: and.commute)
    moreover have "types ia \<noteq> 0 \<or> types ib \<noteq> 0" using both a by auto
    ultimately show ?thesis using br by simp
  qed
qed


definition same_shape :: "WickTensor list \<Rightarrow> WickTensor list \<Rightarrow> bool" where
  "same_shape ts ts0 =
     (length ts = length ts0 \<and>
      (\<forall>k < length ts0. ttype (ts ! k) = ttype (ts0 ! k) \<and>
                        length (indices (ts ! k)) = length (indices (ts0 ! k))))"

definition conflict_at :: "WickTensor list \<Rightarrow> nat \<Rightarrow> bool" where
  "conflict_at ts p =
     (length (indices (ts ! p)) = 2 \<and> types (indices (ts ! p) ! 0) \<noteq> None_t \<and>
      types (indices (ts ! p) ! 1) \<noteq> None_t \<and>
      types (indices (ts ! p) ! 0) AND types (indices (ts ! p) ! 1) = None_t)"

lemma same_shape_replace_others:
  "same_shape ts ts0 \<Longrightarrow> same_shape (replace_others i ia ib ic ts) ts0"
  by (simp add: same_shape_def replace_others_nth replace_index_def)

lemma simplify_delta_step_cases:
  fixes st :: "('f::zero) delta_state"
  assumes "ttype (xtensors st ! i) = KroneckerDelta \<longrightarrow> 2 \<le> length (indices (xtensors st ! i))"
  shows "\<exists>st'. simplify_delta_step i st = Inr st' \<and>
           (xfactor st' = xfactor st \<or> xfactor st' = 0) \<and>
           (xtensors st' = xtensors st \<or>
            (\<exists>ic. \<not> ((types (indices (xtensors st ! i) ! 0) \<noteq> None_t \<or>
                        types (indices (xtensors st ! i) ! 1) \<noteq> None_t) \<and>
                       types (indices (xtensors st ! i) ! 0) AND
                       types (indices (xtensors st ! i) ! 1) = None_t) \<and>
                  types ic = types (indices (xtensors st ! i) ! 0) AND
                             types (indices (xtensors st ! i) ! 1) \<and>
                  xtensors st' = replace_others i (indices (xtensors st ! i) ! 0)
                                   (indices (xtensors st ! i) ! 1) ic (xtensors st)))"
proof (cases "ttype (xtensors st ! i) = KroneckerDelta")
  case False
  then show ?thesis by (auto simp: simplify_delta_step_def Let_def)
next
  case True
  then have len: "\<not> length (indices (xtensors st ! i)) < 2" using assms by simp
  let ?ia = "indices (xtensors st ! i) ! 0" and ?ib = "indices (xtensors st ! i) ! 1"
  show ?thesis
  proof (cases "?ia \<noteq> ?ib")
    case False
    then show ?thesis using True len by (auto simp: simplify_delta_step_def Let_def)
  next
    case ne: True
    show ?thesis
    proof (cases "(types ?ia \<noteq> None_t \<or> types ?ib \<noteq> None_t) \<and> types ?ia AND types ?ib = None_t")
      case True
      then show ?thesis using \<open>ttype (xtensors st ! i) = KroneckerDelta\<close> len ne
        by (auto simp: simplify_delta_step_def Let_def)
    next
      case nc: False
      show ?thesis
      proof (cases "?ia \<notin> xctr_indices st \<and> ?ib \<notin> xctr_indices st")
        case True
        then show ?thesis using \<open>ttype (xtensors st ! i) = KroneckerDelta\<close> len ne nc
          by (auto simp: simplify_delta_step_def Let_def)
      next
        case False
        show ?thesis
        proof (cases "?ia \<in> xctr_indices st")
          case True
          have "simplify_delta_step i st =
                Inr (st\<lparr>xctr_indices := xctr_indices st - {?ia},
                        xtensors := replace_others i ?ia ?ib
                           (WickIndex (name ?ib) (types ?ia AND types ?ib)) (xtensors st)\<rparr>)"
            using \<open>ttype (xtensors st ! i) = KroneckerDelta\<close> len ne nc True
            by (auto simp: simplify_delta_step_def Let_def)
          moreover have "\<exists>ic. \<not> ((types ?ia \<noteq> None_t \<or> types ?ib \<noteq> None_t) \<and>
                              types ?ia AND types ?ib = None_t) \<and>
                  types ic = types ?ia AND types ?ib \<and>
                  replace_others i ?ia ?ib (WickIndex (name ?ib) (types ?ia AND types ?ib)) (xtensors st) =
                  replace_others i ?ia ?ib ic (xtensors st)"
            using nc by (intro exI[of _ "WickIndex (name ?ib) (types ?ia AND types ?ib)"]) simp
          ultimately show ?thesis
            by (intro exI[of _ "st\<lparr>xctr_indices := xctr_indices st - {?ia},
                        xtensors := replace_others i ?ia ?ib
                           (WickIndex (name ?ib) (types ?ia AND types ?ib)) (xtensors st)\<rparr>"])
               simp
        next
          case nia: False
          have "simplify_delta_step i st =
                Inr (st\<lparr>xctr_indices := xctr_indices st - {?ib},
                        xtensors := replace_others i ?ia ?ib
                           (WickIndex (name ?ia) (types ?ia AND types ?ib)) (xtensors st)\<rparr>)"
            using \<open>ttype (xtensors st ! i) = KroneckerDelta\<close> len ne nc False nia
            by (auto simp: simplify_delta_step_def Let_def)
          moreover have "\<exists>ic. \<not> ((types ?ia \<noteq> None_t \<or> types ?ib \<noteq> None_t) \<and>
                              types ?ia AND types ?ib = None_t) \<and>
                  types ic = types ?ia AND types ?ib \<and>
                  replace_others i ?ia ?ib (WickIndex (name ?ia) (types ?ia AND types ?ib)) (xtensors st) =
                  replace_others i ?ia ?ib ic (xtensors st)"
            using nc by (intro exI[of _ "WickIndex (name ?ia) (types ?ia AND types ?ib)"]) simp
          ultimately show ?thesis
            by (intro exI[of _ "st\<lparr>xctr_indices := xctr_indices st - {?ib},
                        xtensors := replace_others i ?ia ?ib
                           (WickIndex (name ?ia) (types ?ia AND types ?ib)) (xtensors st)\<rparr>"])
               simp
        qed
      qed
    qed
  qed
qed

lemma simplify_delta_step_conflict:
  fixes st :: "('f::zero) delta_state"
  assumes "ttype (xtensors st ! p) = KroneckerDelta" and "conflict_at (xtensors st) p"
  shows "\<exists>st'. simplify_delta_step p st = Inr st' \<and> xfactor st' = 0 \<and> xtensors st' = xtensors st"
proof -
  let ?ia = "indices (xtensors st ! p) ! 0" and ?ib = "indices (xtensors st ! p) ! 1"
  from assms(2) have c: "length (indices (xtensors st ! p)) = 2" "types ?ia \<noteq> None_t"
    "types ?ib \<noteq> None_t" "types ?ia AND types ?ib = None_t"
    by (simp_all add: conflict_at_def)
  have "?ia \<noteq> ?ib"
  proof
    assume "?ia = ?ib"
    then have "types ?ia AND types ?ib = types ?ia" by simp
    then show False using c(2,4) by simp
  qed
  then show ?thesis using assms(1) c by (auto simp: simplify_delta_step_def Let_def)
qed

lemma conflict_at_replace_others:
  assumes c: "conflict_at ts p" and "p < length ts" and "p \<noteq> i"
    and br: "\<not> ((types ia \<noteq> None_t \<or> types ib \<noteq> None_t) \<and> types ia AND types ib = None_t)"
    and ic: "types ic = types ia AND types ib"
  shows "conflict_at (replace_others i ia ib ic ts) p"
proof -
  obtain a b where ab: "indices (ts ! p) = [a, b]"
    using c by (auto simp: conflict_at_def length_Suc_conv numeral_2_eq_2)
  from c ab have h: "types a \<noteq> 0" "types b \<noteq> 0" "types a AND types b = 0"
    by (simp_all add: conflict_at_def None_t_def)
  from br have br': "\<not> ((types ia \<noteq> 0 \<or> types ib \<noteq> 0) \<and> types ia AND types ib = 0)"
    by (simp add: None_t_def)
  have "indices (replace_others i ia ib ic ts ! p) =
        [if a = ia \<or> a = ib then ic else a, if b = ia \<or> b = ib then ic else b]"
    using assms(2,3) ab by (simp add: replace_others_nth replace_index_def)
  then show ?thesis
    using conflict_preserved[OF h br' ic] by (simp add: conflict_at_def None_t_def)
qed

lemma simplify_delta_loop_conflict:
  fixes st :: "('f::zero) delta_state"
  assumes wf: "\<forall>t \<in> set ts0. ttype t = KroneckerDelta \<longrightarrow> 2 \<le> length (indices t)"
    and p: "p < length ts0" "ttype (ts0 ! p) = KroneckerDelta"
  shows "set js \<subseteq> {0..<length ts0} \<Longrightarrow> same_shape (xtensors st) ts0 \<Longrightarrow>
    xfactor st = 0 \<or> (conflict_at (xtensors st) p \<and> p \<in> set js) \<Longrightarrow>
    \<exists>st'. simplify_delta_loop js st = Inr st' \<and> xfactor st' = 0"
proof (induction js arbitrary: st)
  case Nil
  then show ?case by simp
next
  case (Cons i js)
  then have i: "i < length ts0" by simp
  have sh: "same_shape (xtensors st) ts0" using Cons.prems(2) .
  have "ttype (xtensors st ! i) = KroneckerDelta \<longrightarrow> 2 \<le> length (indices (xtensors st ! i))"
    using sh wf i by (simp add: same_shape_def)
  from simplify_delta_step_cases[OF this] obtain st' where st':
    "simplify_delta_step i st = Inr st'"
    "xfactor st' = xfactor st \<or> xfactor st' = 0"
    "xtensors st' = xtensors st \<or>
       (\<exists>ic. \<not> ((types (indices (xtensors st ! i) ! 0) \<noteq> None_t \<or>
                   types (indices (xtensors st ! i) ! 1) \<noteq> None_t) \<and>
                  types (indices (xtensors st ! i) ! 0) AND
                  types (indices (xtensors st ! i) ! 1) = None_t) \<and>
             types ic = types (indices (xtensors st ! i) ! 0) AND
                        types (indices (xtensors st ! i) ! 1) \<and>
             xtensors st' = replace_others i (indices (xtensors st ! i) ! 0)
                              (indices (xtensors st ! i) ! 1) ic (xtensors st))"
    by blast
  have sh': "same_shape (xtensors st') ts0"
    using st'(3) sh same_shape_replace_others by auto
  have inv': "xfactor st' = 0 \<or> (conflict_at (xtensors st') p \<and> p \<in> set js)"
  proof (cases "xfactor st = 0")
    case True
    then show ?thesis using st'(2) by auto
  next
    case False
    then have c: "conflict_at (xtensors st) p" and pm: "p \<in> set (i # js)"
      using Cons.prems(3) by auto
    show ?thesis
    proof (cases "i = p")
      case True
      have "ttype (xtensors st ! p) = KroneckerDelta"
        using sh p by (simp add: same_shape_def)
      from simplify_delta_step_conflict[OF this c] st'(1) True show ?thesis by auto
    next
      case ne: False
      then have pj: "p \<in> set js" using pm by auto
      have pl: "p < length (xtensors st)" using sh p(1) by (simp add: same_shape_def)
      from st'(3) have "conflict_at (xtensors st') p"
      proof
        assume "xtensors st' = xtensors st"
        then show ?thesis using c by simp
      next
        assume "\<exists>ic. \<not> ((types (indices (xtensors st ! i) ! 0) \<noteq> None_t \<or>
                   types (indices (xtensors st ! i) ! 1) \<noteq> None_t) \<and>
                  types (indices (xtensors st ! i) ! 0) AND
                  types (indices (xtensors st ! i) ! 1) = None_t) \<and>
             types ic = types (indices (xtensors st ! i) ! 0) AND
                        types (indices (xtensors st ! i) ! 1) \<and>
             xtensors st' = replace_others i (indices (xtensors st ! i) ! 0)
                              (indices (xtensors st ! i) ! 1) ic (xtensors st)"
        then obtain ic where ic:
          "\<not> ((types (indices (xtensors st ! i) ! 0) \<noteq> None_t \<or>
                   types (indices (xtensors st ! i) ! 1) \<noteq> None_t) \<and>
                  types (indices (xtensors st ! i) ! 0) AND
                  types (indices (xtensors st ! i) ! 1) = None_t)"
          "types ic = types (indices (xtensors st ! i) ! 0) AND
                        types (indices (xtensors st ! i) ! 1)"
          "xtensors st' = replace_others i (indices (xtensors st ! i) ! 0)
                              (indices (xtensors st ! i) ! 1) ic (xtensors st)"
          by blast
        have "p \<noteq> i" using ne by simp
        from conflict_at_replace_others[OF c pl this ic(1,2)] show ?thesis
          using ic(3) by simp
      qed
      then show ?thesis using pj by simp
    qed
  qed
  have "set js \<subseteq> {0..<length ts0}" using Cons.prems(1) by simp
  from Cons.IH[OF this sh' inv'] obtain st'' where
    "simplify_delta_loop js st' = Inr st''" "xfactor st'' = 0" by blast
  then show ?case using st'(1) by (simp add: bindE_def)
qed

lemma simplify_delta_conflict:
  fixes x :: "('f::zero) WickString"
  assumes p: "p < length (tensors x)" "ttype (tensors x ! p) = KroneckerDelta"
    and ab: "indices (tensors x ! p) = [a, b]"
    and ty: "types a \<noteq> None_t" "types b \<noteq> None_t" "types a AND types b = None_t"
    and wf: "\<forall>t \<in> set (tensors x). ttype t = KroneckerDelta \<longrightarrow> 2 \<le> length (indices t)"
  shows "\<exists>r. simplify_delta x = Inr r \<and> factor r = 0"
proof -
  let ?st0 = "\<lparr>xtensors = tensors x, xctr_indices = ctr_indices x, xfactor = factor x, xidxs = []\<rparr>"
  have sh: "same_shape (xtensors ?st0) (tensors x)" by (simp add: same_shape_def)
  have c: "conflict_at (xtensors ?st0) p" using ab ty by (simp add: conflict_at_def)
  have "set [0..<length (tensors x)] \<subseteq> {0..<length (tensors x)}" by simp
  from simplify_delta_loop_conflict[OF wf p this sh] c p(1)
  obtain st' where "simplify_delta_loop [0..<length (tensors x)] ?st0 = Inr st'" "xfactor st' = 0"
    by auto
  then show ?thesis by (simp add: simplify_delta_def bindE_def)
qed

subsection \<open>A delta among other deltas\<close>

text \<open>Removing position \<open>p\<close> from a list, and the position of \<open>k\<close> after that.\<close>

definition drop_at :: "nat \<Rightarrow> 'a list \<Rightarrow> 'a list" where
  "drop_at p xs = take p xs @ drop (Suc p) xs"

definition shift :: "nat \<Rightarrow> nat \<Rightarrow> nat" where
  "shift p k = (if p < k then k - 1 else k)"

definition skip_state :: "nat \<Rightarrow> 'f delta_state \<Rightarrow> 'f delta_state" where
  "skip_state p st = st\<lparr>xtensors := drop_at p (xtensors st), xidxs := map (shift p) (xidxs st)\<rparr>"

lemma drop_at_length: "p < length xs \<Longrightarrow> length (drop_at p xs) = length xs - 1"
  by (auto simp: drop_at_def)

lemma drop_at_nth:
  "m < length xs - 1 \<Longrightarrow> drop_at p xs ! m = xs ! (if m < p then m else Suc m)"
  by (auto simp: drop_at_def nth_append min_def)

lemma drop_at_shift:
  assumes "k < length xs" "k \<noteq> p" "p < length xs"
  shows "drop_at p xs ! shift p k = xs ! k"
proof -
  have "shift p k < length xs - 1" using assms by (auto simp: shift_def)
  from drop_at_nth[OF this] show ?thesis using assms by (auto simp: shift_def)
qed

lemma delta_found_skip:
  assumes "p < length ts" "p \<notin> set ks" "set ks \<subseteq> {0..<length ts}"
  shows "delta_found (drop_at p ts) (map (shift p) ks) ia ib = delta_found ts ks ia ib"
proof -
  have "\<And>k. k \<in> set ks \<Longrightarrow> drop_at p ts ! shift p k = ts ! k"
    using assms by (intro drop_at_shift) auto
  then show ?thesis
    unfolding delta_found_def list_ex_iff by (simp add: Bex_def) 
qed

lemma replace_others_drop_at:
  assumes "k < length ts" "k \<noteq> p" "p < length ts"
  shows "replace_others (shift p k) ia ib ic (drop_at p ts) = drop_at p (replace_others k ia ib ic ts)"
proof (rule nth_equalityI)
  show "length (replace_others (shift p k) ia ib ic (drop_at p ts)) =
        length (drop_at p (replace_others k ia ib ic ts))"
    using assms by (simp add: drop_at_length)
next
  fix m assume "m < length (replace_others (shift p k) ia ib ic (drop_at p ts))"
  then have m: "m < length ts - 1" using assms by (simp add: drop_at_length)
  then have m': "m < length (drop_at p ts)" using assms by (simp add: drop_at_length)
  have u: "(if m < p then m else Suc m) < length ts" using m by auto
  have e: "(m = shift p k) = ((if m < p then m else Suc m) = k)"
    using assms by (auto simp: shift_def)
  show "replace_others (shift p k) ia ib ic (drop_at p ts) ! m =
        drop_at p (replace_others k ia ib ic ts) ! m"
    using m m' u e by (simp add: replace_others_nth drop_at_nth)
qed

lemma simplify_delta_step_skip:
  fixes st :: "('f::zero) delta_state"
  assumes "k < length (xtensors st)" "k \<noteq> p" "p < length (xtensors st)"
    and "p \<notin> set (xidxs st)" "set (xidxs st) \<subseteq> {0..<length (xtensors st)}"
  shows "simplify_delta_step (shift p k) (skip_state p st) =
           (case simplify_delta_step k st of Inl e \<Rightarrow> Inl e | Inr st' \<Rightarrow> Inr (skip_state p st'))"
proof -
  have t: "xtensors (skip_state p st) ! shift p k = xtensors st ! k"
    using drop_at_shift[OF assms(1,2,3)] by (simp add: skip_state_def)
  have f: "\<And>ia ib. delta_found (xtensors (skip_state p st)) (xidxs (skip_state p st)) ia ib =
                     delta_found (xtensors st) (xidxs st) ia ib"
    using delta_found_skip[OF assms(3,4,5)] by (simp add: skip_state_def)
  have r: "\<And>ia ib ic. replace_others (shift p k) ia ib ic (xtensors (skip_state p st)) =
                        drop_at p (replace_others k ia ib ic (xtensors st))"
    using replace_others_drop_at[OF assms(1,2,3)] by (simp add: skip_state_def)
  have c: "xctr_indices (skip_state p st) = xctr_indices st" by (simp add: skip_state_def)
  show ?thesis
    unfolding simplify_delta_step_def t f r c
    by (simp add: Let_def skip_state_def)
qed


lemma simplify_delta_step_frame:
  fixes st :: "('f::zero) delta_state"
  assumes "simplify_delta_step k st = Inr st'"
  shows "length (xtensors st') = length (xtensors st) \<and>
         (xidxs st' = xidxs st \<or> xidxs st' = xidxs st @ [k]) \<and>
         xctr_indices st' \<subseteq> xctr_indices st"
  using assms unfolding simplify_delta_step_def
  by (auto simp: Let_def split: if_splits)

lemma simplify_delta_loop_skip:
  fixes st :: "('f::zero) delta_state"
  shows "\<forall>k \<in> set ks. k < length (xtensors st) \<and> k \<noteq> p \<Longrightarrow> p < length (xtensors st) \<Longrightarrow>
    p \<notin> set (xidxs st) \<Longrightarrow> set (xidxs st) \<subseteq> {0..<length (xtensors st)} \<Longrightarrow>
    simplify_delta_loop (map (shift p) ks) (skip_state p st) =
      (case simplify_delta_loop ks st of Inl e \<Rightarrow> Inl e | Inr st' \<Rightarrow> Inr (skip_state p st'))"
proof (induction ks arbitrary: st)
  case Nil
  then show ?case by simp
next
  case (Cons k ks)
  have k: "k < length (xtensors st)" "k \<noteq> p" using Cons.prems(1) by auto
  note step = simplify_delta_step_skip[OF k Cons.prems(2,3,4)]
  show ?case
  proof (cases "simplify_delta_step k st")
    case (Inl e)
    then show ?thesis using step by (simp add: bindE_def)
  next
    case (Inr st1)
    from simplify_delta_step_frame[OF Inr]
    have fr: "length (xtensors st1) = length (xtensors st)"
      "xidxs st1 = xidxs st \<or> xidxs st1 = xidxs st @ [k]" by auto
    have a: "\<forall>k \<in> set ks. k < length (xtensors st1) \<and> k \<noteq> p" using Cons.prems(1) fr(1) by simp
    have b: "p < length (xtensors st1)" using Cons.prems(2) fr(1) by simp
    have c: "p \<notin> set (xidxs st1)" using Cons.prems(3) fr(2) k(2) by auto
    have d: "set (xidxs st1) \<subseteq> {0..<length (xtensors st1)}"
      using Cons.prems(4) fr k(1) by auto
    from Cons.IH[OF a b c d] show ?thesis using step Inr by (simp add: bindE_def)
  qed
qed

text \<open>
  The positions kept by the loop are increasing, so the final compaction reads every
  kept tensor before it is overwritten: the result is the list of the kept tensors.
\<close>

lemma simplify_delta_loop_xidxs:
  fixes st :: "('f::zero) delta_state"
  shows "simplify_delta_loop [a..<b] st = Inr st' \<Longrightarrow> sorted_wrt (<) (xidxs st) \<Longrightarrow>
    \<forall>m \<in> set (xidxs st). m < a \<Longrightarrow>
    sorted_wrt (<) (xidxs st') \<and> (\<forall>m \<in> set (xidxs st'). m < max a b) \<and>
    length (xtensors st') = length (xtensors st) \<and>
    (\<forall>m \<in> set (xidxs st'). m \<in> set (xidxs st) \<or> a \<le> m)"
proof (induction "b - a" arbitrary: a st)
  case 0
  then show ?case by auto
next
  case (Suc n)
  then have ab: "a < b" by simp
  then have up: "[a..<b] = a # [Suc a..<b]" by (rule upt_conv_Cons)
  from Suc.prems(1) obtain st1 where st1: "simplify_delta_step a st = Inr st1"
    and rest: "simplify_delta_loop [Suc a..<b] st1 = Inr st'"
    unfolding up by (auto simp: bindE_def split: sum.splits)
  from simplify_delta_step_frame[OF st1]
  have fr: "length (xtensors st1) = length (xtensors st)"
    "xidxs st1 = xidxs st \<or> xidxs st1 = xidxs st @ [a]" by auto
  have s1: "sorted_wrt (<) (xidxs st1)"
    using fr(2) Suc.prems(2,3) by (auto simp: sorted_wrt_append)
  have s2: "\<forall>m \<in> set (xidxs st1). m < Suc a" using fr(2) Suc.prems(3) by (auto simp: less_Suc_eq)
  have "n = b - Suc a" using Suc.hyps(2) by simp
  from Suc.hyps(1)[OF this rest s1 s2]
  have IH: "sorted_wrt (<) (xidxs st')" "\<forall>m \<in> set (xidxs st'). m < max (Suc a) b"
    "length (xtensors st') = length (xtensors st1)"
    "\<forall>m \<in> set (xidxs st'). m \<in> set (xidxs st1) \<or> Suc a \<le> m" by auto
  have "\<forall>m \<in> set (xidxs st'). m \<in> set (xidxs st) \<or> a \<le> m"
    using IH(4) fr(2) by auto
  moreover have "\<forall>m \<in> set (xidxs st'). m < max a b" using IH(2) ab by auto
  ultimately show ?case using IH(1,3) fr(1) by simp
qed

lemma sorted_positions:
  "sorted_wrt (<) (ks :: nat list) \<Longrightarrow> i < length ks \<Longrightarrow> i \<le> ks ! i"
proof (induction ks arbitrary: i rule: rev_induct)
  case Nil
  then show ?case by simp
next
  case (snoc k ks)
  show ?case
  proof (cases "i < length ks")
    case True
    then show ?thesis using snoc by (simp add: sorted_wrt_append nth_append)
  next
    case False
    then have i: "i = length ks" using snoc.prems(2) by simp
    show ?thesis
    proof (cases ks rule: rev_cases)
      case Nil
      then show ?thesis using i by simp
    next
      case (snoc ks' k')
      have "length ks' \<le> ks ! length ks'"
        using snoc.IH[of "length ks'"] snoc.prems(1) \<open>ks = ks' @ [k']\<close>
        by (simp add: sorted_wrt_append)
      moreover have "k' < k" using snoc.prems(1) \<open>ks = ks' @ [k']\<close> by (simp add: sorted_wrt_append)
      ultimately show ?thesis using i \<open>ks = ks' @ [k']\<close> by (simp add: nth_append)
    qed
  qed
qed

lemma compact_sorted:
  assumes "sorted_wrt (<) ks" "\<forall>m \<in> set ks. m < length xs"
  shows "compact xs ks = map (\<lambda>k. xs ! k) ks"
  using assms sorted_positions[OF assms(1)] by (intro compact_eq_map) auto


text \<open>
  The substitution of one delta, applied to the whole state, commutes with the step of
  another delta whose index names differ from the names of the substituted indices.
\<close>

definition sub_state :: "WickIndex \<Rightarrow> WickIndex \<Rightarrow> WickIndex \<Rightarrow> 'f delta_state \<Rightarrow> 'f delta_state" where
  "sub_state i j ic st =
     st\<lparr>xtensors := map (replace_index i j ic) (xtensors st),
        xctr_indices := xctr_indices st - {i}\<rparr>"

definition avoids :: "WickIndex \<Rightarrow> WickIndex \<Rightarrow> WickTensor \<Rightarrow> bool" where
  "avoids i j t = (\<forall>w \<in> set (indices t). name w \<noteq> name i \<and> name w \<noteq> name j)"

lemma replace_index_avoids:
  "avoids i j t \<Longrightarrow> name ic = name j \<Longrightarrow> replace_index i j ic t = t"
  unfolding replace_index_def avoids_def
  by (cases t) (auto intro!: map_idI)

lemma replace_index_commute:
  assumes "name ea \<noteq> name i" "name ea \<noteq> name j" "name eb \<noteq> name i" "name eb \<noteq> name j"
    and "name ic = name j" "name ec = name ea \<or> name ec = name eb"
  shows "replace_index ea eb ec (replace_index i j ic t) =
         replace_index i j ic (replace_index ea eb ec t)"
proof -
  have "\<And>w. (if (if w = i \<or> w = j then ic else w) = ea \<or> (if w = i \<or> w = j then ic else w) = eb
              then ec else (if w = i \<or> w = j then ic else w)) =
             (if (if w = ea \<or> w = eb then ec else w) = i \<or> (if w = ea \<or> w = eb then ec else w) = j
              then ic else (if w = ea \<or> w = eb then ec else w))"
    using assms by auto
  then show ?thesis by (simp add: replace_index_def o_def)
qed

lemma replace_others_sub:
  assumes "name ea \<noteq> name i" "name ea \<noteq> name j" "name eb \<noteq> name i" "name eb \<noteq> name j"
    and "name ic = name j" "name ec = name ea \<or> name ec = name eb"
  shows "replace_others k ea eb ec (map (replace_index i j ic) ts) =
         map (replace_index i j ic) (replace_others k ea eb ec ts)"
  by (rule nth_equalityI)
     (simp_all add: replace_others_nth replace_index_commute[OF assms])

lemma delta_found_sub:
  assumes "\<forall>m \<in> set ks. m < length ts \<and> (ttype (ts ! m) = KroneckerDelta \<longrightarrow> avoids i j (ts ! m))"
    and "name ic = name j"
  shows "delta_found (map (replace_index i j ic) ts) ks ia ib = delta_found ts ks ia ib"
proof -
  have "\<And>m. m \<in> set ks \<Longrightarrow>
      (ttype (map (replace_index i j ic) ts ! m) = KroneckerDelta \<and>
         ((indices (map (replace_index i j ic) ts ! m) ! 0 = ia \<and>
           indices (map (replace_index i j ic) ts ! m) ! 1 = ib) \<or>
          (indices (map (replace_index i j ic) ts ! m) ! 0 = ib \<and>
           indices (map (replace_index i j ic) ts ! m) ! 1 = ia))) =
      (ttype (ts ! m) = KroneckerDelta \<and>
         ((indices (ts ! m) ! 0 = ia \<and> indices (ts ! m) ! 1 = ib) \<or>
          (indices (ts ! m) ! 0 = ib \<and> indices (ts ! m) ! 1 = ia)))"
  proof -
    fix m assume m: "m \<in> set ks"
    then have ml: "m < length ts" using assms(1) by simp
    show "(ttype (map (replace_index i j ic) ts ! m) = KroneckerDelta \<and>
         ((indices (map (replace_index i j ic) ts ! m) ! 0 = ia \<and>
           indices (map (replace_index i j ic) ts ! m) ! 1 = ib) \<or>
          (indices (map (replace_index i j ic) ts ! m) ! 0 = ib \<and>
           indices (map (replace_index i j ic) ts ! m) ! 1 = ia))) =
      (ttype (ts ! m) = KroneckerDelta \<and>
         ((indices (ts ! m) ! 0 = ia \<and> indices (ts ! m) ! 1 = ib) \<or>
          (indices (ts ! m) ! 0 = ib \<and> indices (ts ! m) ! 1 = ia)))"
    proof (cases "ttype (ts ! m) = KroneckerDelta")
      case True
      then have "replace_index i j ic (ts ! m) = ts ! m"
        using assms m by (intro replace_index_avoids) auto
      then show ?thesis using ml by simp
    next
      case False
      then show ?thesis using ml by simp
    qed
  qed
  then show ?thesis unfolding delta_found_def list_ex_iff by (simp add: Bex_def cong: conj_cong)
qed

lemma simplify_delta_step_sub:
  fixes st :: "('f::zero) delta_state"
  assumes k: "k < length (xtensors st)"
    and av: "ttype (xtensors st ! k) = KroneckerDelta \<longrightarrow> avoids i j (xtensors st ! k)"
    and kept: "\<forall>m \<in> set (xidxs st). m < length (xtensors st) \<and>
                 (ttype (xtensors st ! m) = KroneckerDelta \<longrightarrow> avoids i j (xtensors st ! m))"
    and ic: "name ic = name j"
  shows "simplify_delta_step k (sub_state i j ic st) =
           (case simplify_delta_step k st of Inl e \<Rightarrow> Inl e | Inr st' \<Rightarrow> Inr (sub_state i j ic st'))"
proof (cases "ttype (xtensors st ! k) = KroneckerDelta")
  case False
  then show ?thesis using k by (simp add: simplify_delta_step_def sub_state_def)
next
  case True
  then have same: "replace_index i j ic (xtensors st ! k) = xtensors st ! k"
    using av ic by (intro replace_index_avoids) auto
  then have t: "xtensors (sub_state i j ic st) ! k = xtensors st ! k"
    using k by (simp add: sub_state_def)
  show ?thesis
  proof (cases "length (indices (xtensors st ! k)) < 2")
    case True
    then show ?thesis using \<open>ttype (xtensors st ! k) = KroneckerDelta\<close>
      unfolding simplify_delta_step_def t by simp
  next
    case False
    let ?ea = "indices (xtensors st ! k) ! 0" and ?eb = "indices (xtensors st ! k) ! 1"
    have mem: "?ea \<in> set (indices (xtensors st ! k))" "?eb \<in> set (indices (xtensors st ! k))"
      using False by (auto intro!: nth_mem)
    then have nm: "name ?ea \<noteq> name i" "name ?ea \<noteq> name j" "name ?eb \<noteq> name i" "name ?eb \<noteq> name j"
      using av True unfolding avoids_def by blast+
    have ne: "?ea \<noteq> i" "?eb \<noteq> i" using nm by auto
    have f: "\<And>ia ib. delta_found (xtensors (sub_state i j ic st)) (xidxs (sub_state i j ic st)) ia ib =
                     delta_found (xtensors st) (xidxs st) ia ib"
      using delta_found_sub[OF kept ic] by (simp add: sub_state_def)
    have r: "\<And>ec. name ec = name ?ea \<or> name ec = name ?eb \<Longrightarrow>
                replace_others k ?ea ?eb ec (xtensors (sub_state i j ic st)) =
                map (replace_index i j ic) (replace_others k ?ea ?eb ec (xtensors st))"
      using replace_others_sub[OF nm ic] by (simp add: sub_state_def)
    have c: "xctr_indices (sub_state i j ic st) = xctr_indices st - {i}" by (simp add: sub_state_def)
    have d: "\<And>w. xctr_indices st - {i} - {w} = xctr_indices st - {w} - {i}" by auto
    show ?thesis
      unfolding simplify_delta_step_def t f c
      using True False ne nm
      by (simp add: Let_def sub_state_def d replace_others_sub[OF _ _ _ _ ic])
  qed
qed


lemma simplify_delta_step_form:
  fixes st :: "('f::zero) delta_state"
  assumes "simplify_delta_step k st = Inr st'"
  shows "(xidxs st' = xidxs st \<or> xidxs st' = xidxs st @ [k]) \<and>
         ((xtensors st' = xtensors st \<and> xctr_indices st' = xctr_indices st) \<or>
          (ttype (xtensors st ! k) = KroneckerDelta \<and> 2 \<le> length (indices (xtensors st ! k)) \<and>
           (\<exists>ec. (name ec = name (indices (xtensors st ! k) ! 0) \<or>
                  name ec = name (indices (xtensors st ! k) ! 1)) \<and>
                 xtensors st' = replace_others k (indices (xtensors st ! k) ! 0)
                                  (indices (xtensors st ! k) ! 1) ec (xtensors st)) \<and>
           (xctr_indices st' = xctr_indices st - {indices (xtensors st ! k) ! 0} \<or>
            xctr_indices st' = xctr_indices st - {indices (xtensors st ! k) ! 1})))"
proof (cases "ttype (xtensors st ! k) = KroneckerDelta")
  case False
  then have "simplify_delta_step k st = Inr (st\<lparr>xidxs := xidxs st @ [k]\<rparr>)"
    by (simp add: simplify_delta_step_def)
  then have "st' = st\<lparr>xidxs := xidxs st @ [k]\<rparr>" using assms by simp
  then show ?thesis by simp
next
  case True
  let ?ea = "indices (xtensors st ! k) ! 0" and ?eb = "indices (xtensors st ! k) ! 1"
  have len: "\<not> length (indices (xtensors st ! k)) < 2"
  proof
    assume "length (indices (xtensors st ! k)) < 2"
    then have "simplify_delta_step k st = Inl OutOfRange"
      using True by (simp add: simplify_delta_step_def)
    then show False using assms by simp
  qed
  show ?thesis
  proof (cases "?ea \<noteq> ?eb")
    case False
    then have "simplify_delta_step k st = Inr st"
      using True len by (auto simp: simplify_delta_step_def Let_def)
    then have "st' = st" using assms by simp
    then show ?thesis by simp
  next
    case ne: True
    show ?thesis
    proof (cases "(types ?ea \<noteq> None_t \<or> types ?eb \<noteq> None_t) \<and> types ?ea AND types ?eb = None_t")
      case True
      then have "simplify_delta_step k st = Inr (st\<lparr>xfactor := 0\<rparr>)"
        using \<open>ttype (xtensors st ! k) = KroneckerDelta\<close> len ne
        by (auto simp: simplify_delta_step_def Let_def)
      then have "st' = st\<lparr>xfactor := 0\<rparr>" using assms by simp
      then show ?thesis by simp
    next
      case nc: False
      show ?thesis
      proof (cases "?ea \<notin> xctr_indices st \<and> ?eb \<notin> xctr_indices st")
        case True
        then have "simplify_delta_step k st =
            (if delta_found (xtensors st) (xidxs st) ?ea ?eb then Inr st
             else Inr (st\<lparr>xidxs := xidxs st @ [k]\<rparr>))"
          using \<open>ttype (xtensors st ! k) = KroneckerDelta\<close> len ne nc
          by (auto simp: simplify_delta_step_def Let_def)
        then have "st' = st \<or> st' = st\<lparr>xidxs := xidxs st @ [k]\<rparr>"
          using assms by (auto split: if_splits)
        then show ?thesis by auto
      next
        case False
        show ?thesis
        proof (cases "?ea \<in> xctr_indices st")
          case True
          have "simplify_delta_step k st = Inr (st\<lparr>xctr_indices := xctr_indices st - {?ea},
                        xtensors := replace_others k ?ea ?eb
                           (WickIndex (name ?eb) (types ?ea AND types ?eb)) (xtensors st)\<rparr>)"
            using \<open>ttype (xtensors st ! k) = KroneckerDelta\<close> len ne nc True
            by (auto simp: simplify_delta_step_def Let_def)
          then have e: "st' = st\<lparr>xctr_indices := xctr_indices st - {?ea},
                        xtensors := replace_others k ?ea ?eb
                           (WickIndex (name ?eb) (types ?ea AND types ?eb)) (xtensors st)\<rparr>"
            using assms by simp
          have "\<exists>ec. (name ec = name ?ea \<or> name ec = name ?eb) \<and>
               xtensors st' = replace_others k ?ea ?eb ec (xtensors st)"
            by (rule exI[of _ "WickIndex (name ?eb) (types ?ea AND types ?eb)"]) (simp add: e)
          moreover have "xidxs st' = xidxs st" "xctr_indices st' = xctr_indices st - {?ea}"
            by (simp_all add: e)
          ultimately show ?thesis using \<open>ttype (xtensors st ! k) = KroneckerDelta\<close> len
            by (simp add: not_less)
        next
          case nia: False
          have "simplify_delta_step k st = Inr (st\<lparr>xctr_indices := xctr_indices st - {?eb},
                        xtensors := replace_others k ?ea ?eb
                           (WickIndex (name ?ea) (types ?ea AND types ?eb)) (xtensors st)\<rparr>)"
            using \<open>ttype (xtensors st ! k) = KroneckerDelta\<close> len ne nc False nia
            by (auto simp: simplify_delta_step_def Let_def)
          then have e: "st' = st\<lparr>xctr_indices := xctr_indices st - {?eb},
                        xtensors := replace_others k ?ea ?eb
                           (WickIndex (name ?ea) (types ?ea AND types ?eb)) (xtensors st)\<rparr>"
            using assms by simp
          have "\<exists>ec. (name ec = name ?ea \<or> name ec = name ?eb) \<and>
               xtensors st' = replace_others k ?ea ?eb ec (xtensors st)"
            by (rule exI[of _ "WickIndex (name ?ea) (types ?ea AND types ?eb)"]) (simp add: e)
          moreover have "xidxs st' = xidxs st" "xctr_indices st' = xctr_indices st - {?eb}"
            by (simp_all add: e)
          ultimately show ?thesis using \<open>ttype (xtensors st ! k) = KroneckerDelta\<close> len
            by (simp add: not_less)
        qed
      qed
    qed
  qed
qed

text \<open>What holds of the state until the loop reaches the delta \<open>d\<close> at position \<open>p\<close>.\<close>

definition pre_inv :: "nat \<Rightarrow> WickTensor \<Rightarrow> WickIndex \<Rightarrow> WickIndex \<Rightarrow> 'f delta_state \<Rightarrow> bool" where
  "pre_inv p d i j st =
     (p < length (xtensors st) \<and> xtensors st ! p = d \<and>
      i \<in> xctr_indices st \<and> j \<notin> xctr_indices st \<and>
      (\<forall>m < p. ttype (xtensors st ! m) = KroneckerDelta \<longrightarrow> avoids i j (xtensors st ! m)) \<and>
      (\<forall>m \<in> set (xidxs st). m < p))"

lemma replace_index_id:
  "ea \<notin> set (indices t) \<Longrightarrow> eb \<notin> set (indices t) \<Longrightarrow> replace_index ea eb ec t = t"
  by (cases t) (auto simp: replace_index_def intro!: map_idI)

lemma avoids_replace_index:
  assumes "avoids i j t" "name ec \<noteq> name i" "name ec \<noteq> name j"
  shows "avoids i j (replace_index ea eb ec t)"
  using assms unfolding avoids_def replace_index_def by auto

lemma simplify_delta_step_pre_inv:
  fixes st :: "('f::zero) delta_state"
  assumes inv: "pre_inv p d i j st" and k: "k < p"
    and d: "set (indices d) \<subseteq> {i, j}"
    and step: "simplify_delta_step k st = Inr st'"
  shows "pre_inv p d i j st'"
proof -
  let ?ts = "xtensors st"
  let ?ea = "indices (?ts ! k) ! 0" and ?eb = "indices (?ts ! k) ! 1"
  from inv have p: "p < length ?ts" and dp: "?ts ! p = d" and ci: "i \<in> xctr_indices st"
    and cj: "j \<notin> xctr_indices st"
    and av: "\<forall>m < p. ttype (?ts ! m) = KroneckerDelta \<longrightarrow> avoids i j (?ts ! m)"
    and ks: "\<forall>m \<in> set (xidxs st). m < p"
    by (simp_all add: pre_inv_def)
  note xi = simplify_delta_step_form[OF step, THEN conjunct1]
  note form = simplify_delta_step_form[OF step, THEN conjunct2]
  have ks': "\<forall>m \<in> set (xidxs st'). m < p"
  proof
    fix m assume "m \<in> set (xidxs st')"
    then have "m \<in> set (xidxs st) \<or> m = k" using xi by auto
    then show "m < p" using ks k by auto
  qed
  from form show ?thesis
  proof (rule disjE)
    assume "xtensors st' = ?ts \<and> xctr_indices st' = xctr_indices st"
    then show ?thesis using p dp ci cj av ks' by (simp add: pre_inv_def)
  next
    assume sub: "ttype (?ts ! k) = KroneckerDelta \<and> 2 \<le> length (indices (?ts ! k)) \<and>
           (\<exists>ec. (name ec = name ?ea \<or> name ec = name ?eb) \<and>
                 xtensors st' = replace_others k ?ea ?eb ec ?ts) \<and>
           (xctr_indices st' = xctr_indices st - {?ea} \<or>
            xctr_indices st' = xctr_indices st - {?eb})"
    from sub have tk: "ttype (?ts ! k) = KroneckerDelta" by (rule conjunct1)
    from sub have len: "2 \<le> length (indices (?ts ! k))" by (elim conjE)
    from sub have ctr: "xctr_indices st' = xctr_indices st - {?ea} \<or>
                xctr_indices st' = xctr_indices st - {?eb}" by (elim conjE)
    from sub have "\<exists>ec. (name ec = name ?ea \<or> name ec = name ?eb) \<and>
                 xtensors st' = replace_others k ?ea ?eb ec ?ts" by (elim conjE)
    then obtain ec where ec: "name ec = name ?ea \<or> name ec = name ?eb"
      and ts': "xtensors st' = replace_others k ?ea ?eb ec ?ts"
      by (elim exE conjE)
    have ak: "avoids i j (?ts ! k)" using av k tk by simp
    have l0: "0 < length (indices (?ts ! k))" and l1: "1 < length (indices (?ts ! k))"
      using len by auto
    have "?ea \<in> set (indices (?ts ! k))" "?eb \<in> set (indices (?ts ! k))"
      using nth_mem[OF l0] nth_mem[OF l1] by simp_all
    then have nm: "name ?ea \<noteq> name i" "name ?ea \<noteq> name j"
        "name ?eb \<noteq> name i" "name ?eb \<noteq> name j"
      using ak unfolding avoids_def by blast+
    then have ecn: "name ec \<noteq> name i" "name ec \<noteq> name j" using ec by auto
    have nei: "?ea \<noteq> i" "?eb \<noteq> i" "?ea \<noteq> j" "?eb \<noteq> j" using nm by auto
    then have "?ea \<notin> set (indices d)" "?eb \<notin> set (indices d)" using d by auto
    then have "replace_index ?ea ?eb ec d = d" by (rule replace_index_id)
    then have dp': "xtensors st' ! p = d"
      using ts' p dp k by (simp add: replace_others_nth)
    have av': "\<forall>m < p. ttype (xtensors st' ! m) = KroneckerDelta \<longrightarrow> avoids i j (xtensors st' ! m)"
    proof (intro allI impI)
      fix m assume m: "m < p" and tm: "ttype (xtensors st' ! m) = KroneckerDelta"
      have ml: "m < length ?ts" using m p by simp
      have nth: "xtensors st' ! m = (if m \<noteq> k then replace_index ?ea ?eb ec (?ts ! m) else ?ts ! m)"
        using ts' ml by (simp add: replace_others_nth)
      have "ttype (?ts ! m) = KroneckerDelta"
        using tm nth by (cases "m = k") simp_all
      then have a: "avoids i j (?ts ! m)" using av m by simp
      show "avoids i j (xtensors st' ! m)"
        using nth a avoids_replace_index[OF a ecn] by (cases "m = k") simp_all
    qed
    have ci': "i \<in> xctr_indices st'" using ctr ci nei by auto
    have cj': "j \<notin> xctr_indices st'" using ctr cj by auto
    have pl': "p < length (xtensors st')" using ts' p by simp
    show ?thesis unfolding pre_inv_def using pl' dp' ci' cj' av' ks' by blast
  qed
qed

lemma simplify_delta_loop_sub:
  fixes st :: "('f::zero) delta_state"
  assumes d: "set (indices d) \<subseteq> {i, j}" and ic: "name ic = name j"
  shows "\<forall>k \<in> set ks. k < p \<Longrightarrow> pre_inv p d i j st \<Longrightarrow>
    simplify_delta_loop ks (sub_state i j ic st) =
      (case simplify_delta_loop ks st of Inl e \<Rightarrow> Inl e | Inr st' \<Rightarrow> Inr (sub_state i j ic st')) \<and>
    (\<forall>st'. simplify_delta_loop ks st = Inr st' \<longrightarrow> pre_inv p d i j st')"
proof (induction ks arbitrary: st)
  case Nil
  then show ?case by simp
next
  case (Cons k ks)
  have k: "k < p" using Cons.prems(1) by simp
  from Cons.prems(2) have pl: "p < length (xtensors st)"
    and av: "\<forall>m < p. ttype (xtensors st ! m) = KroneckerDelta \<longrightarrow> avoids i j (xtensors st ! m)"
    and kp: "\<forall>m \<in> set (xidxs st). m < p"
    by (simp_all add: pre_inv_def)
  have a1: "k < length (xtensors st)" using k pl by simp
  have a2: "ttype (xtensors st ! k) = KroneckerDelta \<longrightarrow> avoids i j (xtensors st ! k)"
    using av k by simp
  have a3: "\<forall>m \<in> set (xidxs st). m < length (xtensors st) \<and>
              (ttype (xtensors st ! m) = KroneckerDelta \<longrightarrow> avoids i j (xtensors st ! m))"
    using kp av pl by auto
  note step = simplify_delta_step_sub[OF a1 a2 a3 ic]
  show ?case
  proof (cases "simplify_delta_step k st")
    case (Inl e)
    then show ?thesis using step by (simp add: bindE_def)
  next
    case (Inr st1)
    have inv1: "pre_inv p d i j st1"
      by (rule simplify_delta_step_pre_inv[OF Cons.prems(2) k d Inr])
    have "\<forall>k \<in> set ks. k < p" using Cons.prems(1) by simp
    from Cons.IH[OF this inv1] show ?thesis using step Inr by (simp add: bindE_def)
  qed
qed


lemma simplify_delta_step_target:
  fixes st :: "('f::zero) delta_state"
  assumes inv: "pre_inv p d i j st"
    and d: "ttype d = KroneckerDelta" "indices d = [ia, ib]"
    and ij: "(i = ia \<and> j = ib) \<or> (i = ib \<and> j = ia)"
    and compat: "types i AND types j \<noteq> None_t \<or> (types i = None_t \<and> types j = None_t)"
  shows "simplify_delta_step p st =
     Inr (st\<lparr>xctr_indices := xctr_indices st - {i},
             xtensors := replace_others p ia ib (WickIndex (name j) (types i AND types j))
                           (xtensors st)\<rparr>)"
proof -
  from inv have atp: "xtensors st ! p = d" and ci: "i \<in> xctr_indices st"
    and cj: "j \<notin> xctr_indices st" by (simp_all add: pre_inv_def)
  have ne: "ia \<noteq> ib" using ij ci cj by auto
  have nz: "\<not> ((types ia \<noteq> None_t \<or> types ib \<noteq> None_t) \<and> types ia AND types ib = None_t)"
    using compat ij by (auto simp: and.commute)
  show ?thesis
    unfolding simplify_delta_step_def atp using d ne nz ij ci cj
    by (auto simp: Let_def and.commute)
qed

lemma drop_at_target:
  assumes "p < length ts" and ij: "(i = ia \<and> j = ib) \<or> (i = ib \<and> j = ia)"
  shows "drop_at p (replace_others p ia ib ic ts) = drop_at p (map (replace_index i j ic) ts)"
proof (rule nth_equalityI)
  show "length (drop_at p (replace_others p ia ib ic ts)) =
        length (drop_at p (map (replace_index i j ic) ts))"
    using assms(1) by (simp add: drop_at_length)
next
  fix m assume "m < length (drop_at p (replace_others p ia ib ic ts))"
  then have m: "m < length ts - 1" using assms(1) by (simp add: drop_at_length)
  have f: "replace_index ia ib ic = replace_index i j ic"
    using ij by (auto simp: replace_index_def fun_eq_iff)
  have u: "(if m < p then m else Suc m) < length ts" "(if m < p then m else Suc m) \<noteq> p"
    using m by auto
  show "drop_at p (replace_others p ia ib ic ts) ! m =
        drop_at p (map (replace_index i j ic) ts) ! m"
    using m u f by (simp add: drop_at_nth replace_others_nth)
qed

lemma map_shift_below: "map (shift p) [0..<p] = [0..<p]"
  by (rule map_idI) (simp add: shift_def)

lemma map_shift_above: "p < n \<Longrightarrow> map (shift p) [Suc p..<n] = [p..<n - 1]"
  by (rule nth_equalityI) (auto simp: shift_def)

lemma simplify_delta_eliminate:
  fixes x :: "('f::zero) WickString"
  assumes tx: "tensors x = pre @ d # post"
    and d: "ttype d = KroneckerDelta" "indices d = [ia, ib]"
    and names: "\<forall>t \<in> set pre. ttype t = KroneckerDelta \<longrightarrow> avoids i j t"
    and ctr: "(ia \<in> ctr_indices x \<and> ib \<notin> ctr_indices x \<and> i = ia \<and> j = ib) \<or>
              (ib \<in> ctr_indices x \<and> ia \<notin> ctr_indices x \<and> i = ib \<and> j = ia)"
    and compat: "types i AND types j \<noteq> None_t \<or> (types i = None_t \<and> types j = None_t)"
  shows "simplify_delta x =
     simplify_delta
       \<lparr>tensors = map (replace_index i j (WickIndex (name j) (types i AND types j))) (pre @ post),
        ctr_indices = ctr_indices x - {i}, factor = factor x\<rparr>"
proof -
  define p where "p = length pre"
  define n where "n = length (tensors x)"
  define ic where "ic = WickIndex (name j) (types i AND types j)"
  define x' where "x' = \<lparr>tensors = map (replace_index i j ic) (pre @ post),
              ctr_indices = ctr_indices x - {i}, factor = factor x\<rparr>"
  define st0 where "st0 = \<lparr>xtensors = tensors x, xctr_indices = ctr_indices x,
              xfactor = factor x, xidxs = []\<rparr>"
  define st0' where "st0' = \<lparr>xtensors = tensors x', xctr_indices = ctr_indices x',
              xfactor = factor x', xidxs = []\<rparr>"
  have ij: "(i = ia \<and> j = ib) \<or> (i = ib \<and> j = ia)" using ctr by auto
  have icn: "name ic = name j" by (simp add: ic_def)
  have dset: "set (indices d) \<subseteq> {i, j}" using d(2) ij by auto
  have pn: "p < n" by (simp add: p_def n_def tx)
  have n1: "length (tensors x') = n - 1" by (simp add: x'_def n_def tx)
  have l0: "length (xtensors st0) = n" by (simp add: st0_def n_def)
  have l0': "length (xtensors st0') = n - 1" using n1 by (simp add: st0'_def)
  have e0: "xidxs st0 = []" "xidxs st0' = []" by (simp_all add: st0_def st0'_def)
  have st0': "st0' = skip_state p (sub_state i j ic st0)"
    by (simp add: st0'_def st0_def x'_def skip_state_def sub_state_def tx drop_at_def p_def)
  have inv0: "pre_inv p d i j st0"
    unfolding pre_inv_def p_def st0_def using tx names ctr by (auto simp: nth_append)
  have sp1: "[0..<n] = [0..<p] @ p # [Suc p..<n]"
  proof -
    have "[0..<p + (n - p)] = [0..<p] @ [p..<p + (n - p)]" by (rule upt_add_eq_append) simp
    moreover have "[p..<n] = p # [Suc p..<n]" using pn by (rule upt_conv_Cons)
    ultimately show ?thesis using pn by simp
  qed
  have sp2: "[0..<n - 1] = [0..<p] @ [p..<n - 1]"
  proof -
    have "[0..<p + (n - 1 - p)] = [0..<p] @ [p..<p + (n - 1 - p)]"
      by (rule upt_add_eq_append) simp
    then show ?thesis using pn by simp
  qed
  have run: "simplify_delta_loop [0..<n] st0 =
      bindE (simplify_delta_loop [0..<p] st0) (\<lambda>s.
        bindE (simplify_delta_step p s) (simplify_delta_loop [Suc p..<n]))"
  proof -
    have A: "simplify_delta_loop (p # [Suc p..<n]) =
          (\<lambda>s. bindE (simplify_delta_step p s) (simplify_delta_loop [Suc p..<n]))"
      by (rule ext) (simp del: upt_Suc)
    have B: "simplify_delta_loop ([0..<p] @ p # [Suc p..<n]) st0 =
          bindE (simplify_delta_loop [0..<p] st0) (simplify_delta_loop (p # [Suc p..<n]))"
      by (rule simplify_delta_loop_append)
    show ?thesis unfolding sp1 B A by (rule refl)
  qed
  have run': "simplify_delta_loop [0..<n - 1] st0' =
      bindE (simplify_delta_loop [0..<p] st0') (simplify_delta_loop [p..<n - 1])"
    unfolding sp2 by (simp only: simplify_delta_loop_append)
  have sd: "simplify_delta x = bindE (simplify_delta_loop [0..<n] st0)
       (\<lambda>st. Inr \<lparr>tensors = compact (xtensors st) (xidxs st),
                  ctr_indices = xctr_indices st, factor = xfactor st\<rparr>)"
    by (simp only: simplify_delta_def n_def st0_def)
  have sd': "simplify_delta x' = bindE (simplify_delta_loop [0..<n - 1] st0')
       (\<lambda>st. Inr \<lparr>tensors = compact (xtensors st) (xidxs st),
                  ctr_indices = xctr_indices st, factor = xfactor st\<rparr>)"
    by (simp only: simplify_delta_def n1 st0'_def)
  have kp: "\<forall>k \<in> set [0..<p]. k < p" by simp
  from simplify_delta_loop_sub[OF dset icn kp inv0]
  have sub: "simplify_delta_loop [0..<p] (sub_state i j ic st0) =
      (case simplify_delta_loop [0..<p] st0 of Inl e \<Rightarrow> Inl e
       | Inr st' \<Rightarrow> Inr (sub_state i j ic st'))"
    and invs: "\<forall>st'. simplify_delta_loop [0..<p] st0 = Inr st' \<longrightarrow> pre_inv p d i j st'"
    by blast+
  have skip0: "simplify_delta_loop [0..<p] st0' =
      (case simplify_delta_loop [0..<p] (sub_state i j ic st0) of Inl e \<Rightarrow> Inl e
       | Inr st' \<Rightarrow> Inr (skip_state p st'))"
  proof -
    have "simplify_delta_loop (map (shift p) [0..<p]) (skip_state p (sub_state i j ic st0)) =
      (case simplify_delta_loop [0..<p] (sub_state i j ic st0) of Inl e \<Rightarrow> Inl e
       | Inr st' \<Rightarrow> Inr (skip_state p st'))"
    proof (rule simplify_delta_loop_skip)
      show "\<forall>k \<in> set [0..<p]. k < length (xtensors (sub_state i j ic st0)) \<and> k \<noteq> p"
        using pn l0 by (simp add: sub_state_def)
      show "p < length (xtensors (sub_state i j ic st0))" using pn l0 by (simp add: sub_state_def)
      show "p \<notin> set (xidxs (sub_state i j ic st0))" using e0 by (simp add: sub_state_def)
      show "set (xidxs (sub_state i j ic st0)) \<subseteq> {0..<length (xtensors (sub_state i j ic st0))}"
        using e0 by (simp add: sub_state_def)
    qed
    then show ?thesis by (simp only: map_shift_below st0')
  qed
  have goal: "simplify_delta x = simplify_delta x'"
  proof (cases "simplify_delta_loop [0..<p] st0")
    case (Inl e)
    have "simplify_delta_loop [0..<n] st0 = Inl e" using run Inl by (simp add: bindE_def)
    moreover have "simplify_delta_loop [0..<n - 1] st0' = Inl e"
      using run' skip0 sub Inl by (simp add: bindE_def)
    ultimately show ?thesis unfolding sd sd' by (simp add: bindE_def)
  next
    case (Inr s)
    have inv: "pre_inv p d i j s" using invs Inr by blast
    have "\<forall>m \<in> set (xidxs st0). m < 0" using e0 by simp
    moreover have "sorted_wrt (<) (xidxs st0)" using e0 by simp
    ultimately have s: "sorted_wrt (<) (xidxs s)" "\<forall>m \<in> set (xidxs s). m < p"
        "length (xtensors s) = n"
      using simplify_delta_loop_xidxs[OF Inr] l0 by (auto simp: max_def)
    define s1 where "s1 = s\<lparr>xctr_indices := xctr_indices s - {i},
                  xtensors := replace_others p ia ib ic (xtensors s)\<rparr>"
    have step: "simplify_delta_step p s = Inr s1"
      unfolding s1_def ic_def by (rule simplify_delta_step_target[OF inv d ij compat])
    have s1f: "length (xtensors s1) = n" "xidxs s1 = xidxs s"
      using s(3) by (simp_all add: s1_def)
    have same: "skip_state p (sub_state i j ic s) = skip_state p s1"
      using drop_at_target[OF _ ij, of p "xtensors s" ic] s(3) pn
      by (simp add: skip_state_def sub_state_def s1_def)
    have pre': "simplify_delta_loop [0..<p] st0' = Inr (skip_state p s1)"
      using skip0 sub Inr same by simp
    have post': "simplify_delta_loop [p..<n - 1] (skip_state p s1) =
        (case simplify_delta_loop [Suc p..<n] s1 of Inl e \<Rightarrow> Inl e
         | Inr st' \<Rightarrow> Inr (skip_state p st'))"
    proof -
      have "simplify_delta_loop (map (shift p) [Suc p..<n]) (skip_state p s1) =
        (case simplify_delta_loop [Suc p..<n] s1 of Inl e \<Rightarrow> Inl e
         | Inr st' \<Rightarrow> Inr (skip_state p st'))"
      proof (rule simplify_delta_loop_skip)
        show "\<forall>k \<in> set [Suc p..<n]. k < length (xtensors s1) \<and> k \<noteq> p"
          using s1f(1) by (simp del: upt_Suc)
        show "p < length (xtensors s1)" using s1f(1) pn by simp
        show "p \<notin> set (xidxs s1)" using s(2) s1f(2) by auto
        show "set (xidxs s1) \<subseteq> {0..<length (xtensors s1)}" using s(2) s1f pn by auto
      qed
      then show ?thesis by (simp only: map_shift_above[OF pn])
    qed
    have full: "simplify_delta_loop [0..<n] st0 = simplify_delta_loop [Suc p..<n] s1"
      using run Inr step by (simp add: bindE_def)
    have full': "simplify_delta_loop [0..<n - 1] st0' =
        (case simplify_delta_loop [Suc p..<n] s1 of Inl e \<Rightarrow> Inl e
         | Inr st' \<Rightarrow> Inr (skip_state p st'))"
      using run' pre' post' by (simp add: bindE_def)
    show ?thesis
    proof (cases "simplify_delta_loop [Suc p..<n] s1")
      case (Inl e)
      then show ?thesis unfolding sd sd' using full full' by (simp add: bindE_def)
    next
      case (Inr sF)
      have a1: "sorted_wrt (<) (xidxs s1)" using s(1) s1f(2) by simp
      have a2: "\<forall>m \<in> set (xidxs s1). m < Suc p" using s(2) s1f(2) by auto
      from simplify_delta_loop_xidxs[OF Inr a1 a2]
      have F: "sorted_wrt (<) (xidxs sF)" "\<forall>m \<in> set (xidxs sF). m < n"
        "length (xtensors sF) = n"
        "\<forall>m \<in> set (xidxs sF). m \<in> set (xidxs s) \<or> Suc p \<le> m"
        using s1f pn by (auto simp: max_def)
      have pF: "p \<notin> set (xidxs sF)" using F(4) s(2) by auto
      have c: "compact (xtensors sF) (xidxs sF) = map (\<lambda>k. xtensors sF ! k) (xidxs sF)"
        by (rule compact_sorted) (use F in simp_all)
      have fin': "simplify_delta_loop [0..<n - 1] st0' = Inr (skip_state p sF)"
        using full' Inr by simp
      have b1: "sorted_wrt (<) (xidxs st0')" and b2: "\<forall>m \<in> set (xidxs st0'). m < 0"
        using e0 by simp_all
      from simplify_delta_loop_xidxs[OF fin' b1 b2]
      have F': "sorted_wrt (<) (xidxs (skip_state p sF))"
        "\<forall>m \<in> set (xidxs (skip_state p sF)). m < n - 1"
        "length (xtensors (skip_state p sF)) = n - 1"
        using l0' by (auto simp: max_def)
      have c': "compact (xtensors (skip_state p sF)) (xidxs (skip_state p sF)) =
                map (\<lambda>k. xtensors (skip_state p sF) ! k) (xidxs (skip_state p sF))"
        by (rule compact_sorted) (use F' in simp_all)
      have "map (\<lambda>k. xtensors (skip_state p sF) ! k) (xidxs (skip_state p sF)) =
            map (\<lambda>k. xtensors sF ! k) (xidxs sF)"
      proof -
        have "\<And>k. k \<in> set (xidxs sF) \<Longrightarrow> drop_at p (xtensors sF) ! shift p k = xtensors sF ! k"
          using F(2,3) pF pn by (intro drop_at_shift) auto
        then show ?thesis by (simp add: skip_state_def)
      qed
      then have "compact (xtensors (skip_state p sF)) (xidxs (skip_state p sF)) =
                 compact (xtensors sF) (xidxs sF)"
        using c c' by simp
      moreover have "xctr_indices (skip_state p sF) = xctr_indices sF"
        "xfactor (skip_state p sF) = xfactor sF" by (simp_all add: skip_state_def)
      ultimately show ?thesis
        unfolding sd sd' using full fin' Inr by (simp add: bindE_def)
    qed
  qed
  then show ?thesis by (simp only: x'_def ic_def)
qed


lemma simplify_delta_loop_ctr:
  fixes st :: "('f::zero) delta_state"
  shows "simplify_delta_loop ks st = Inr st' \<Longrightarrow> xctr_indices st' \<subseteq> xctr_indices st"
proof (induction ks arbitrary: st)
  case Nil
  then show ?case by simp
next
  case (Cons k ks)
  from Cons.prems obtain st1 where st1: "simplify_delta_step k st = Inr st1"
    and rest: "simplify_delta_loop ks st1 = Inr st'"
    by (auto simp: bindE_def split: sum.splits)
  have "xctr_indices st1 \<subseteq> xctr_indices st" using simplify_delta_step_frame[OF st1] by simp
  then show ?case using Cons.IH[OF rest] by blast
qed

lemma simplify_delta_ctr:
  fixes x :: "('f::zero) WickString"
  assumes "simplify_delta x = Inr r"
  shows "ctr_indices r \<subseteq> ctr_indices x"
proof -
  from assms obtain st where
    st: "simplify_delta_loop [0..<length (tensors x)]
           \<lparr>xtensors = tensors x, xctr_indices = ctr_indices x, xfactor = factor x, xidxs = []\<rparr> = Inr st"
    and r: "r = \<lparr>tensors = compact (xtensors st) (xidxs st),
                 ctr_indices = xctr_indices st, factor = xfactor st\<rparr>"
    unfolding simplify_delta_def by (auto simp: bindE_def split: sum.splits)
  from simplify_delta_loop_ctr[OF st] show ?thesis using r by simp
qed

lemma sorted_positions_length:
  assumes "sorted_wrt (<) (ks :: nat list)" "\<forall>m \<in> set ks. m < n" "p \<notin> set ks" "p < n"
  shows "length ks \<le> n - 1"
proof -
  have "distinct ks" using assms(1) by (simp add: strict_sorted_iff[symmetric] sorted_wrt_iff_nth_less distinct_conv_nth)
       (metis nat_neq_iff)
  then have "length ks = card (set ks)" by (simp add: distinct_card)
  also have "set ks \<subseteq> {0..<n} - {p}" using assms(2,3) by auto
  then have "card (set ks) \<le> card ({0..<n} - {p})" by (intro card_mono) auto
  also have "card ({0..<n} - {p}) = n - 1" using assms(4) by simp
  finally show ?thesis .
qed

lemma simplify_delta_reach:
  fixes x :: "('f::zero) WickString"
  assumes tx: "tensors x = pre @ d # post"
    and reach: "simplify_delta_loop [0..<length pre]
        \<lparr>xtensors = tensors x, xctr_indices = ctr_indices x, xfactor = factor x, xidxs = []\<rparr> = Inr s"
    and atp: "xtensors s ! length pre = d"
    and d: "ttype d = KroneckerDelta" "indices d = [ia, ib]"
    and ctr: "(ia \<in> xctr_indices s \<and> ib \<notin> xctr_indices s \<and> i = ia \<and> j = ib) \<or>
              (ib \<in> xctr_indices s \<and> ia \<notin> xctr_indices s \<and> i = ib \<and> j = ia)"
    and compat: "types i AND types j \<noteq> None_t \<or> (types i = None_t \<and> types j = None_t)"
  shows "simplify_delta x =
       bindE (simplify_delta_loop [Suc (length pre)..<length (tensors x)]
                (s\<lparr>xctr_indices := xctr_indices s - {i},
                   xtensors := replace_others (length pre) ia ib
                      (WickIndex (name j) (types i AND types j)) (xtensors s)\<rparr>))
         (\<lambda>st. Inr \<lparr>tensors = compact (xtensors st) (xidxs st),
                    ctr_indices = xctr_indices st, factor = xfactor st\<rparr>) \<and>
     (\<forall>r. simplify_delta x = Inr r \<longrightarrow>
        i \<notin> ctr_indices r \<and> length (tensors r) \<le> length pre + length post)"
proof -
  define p where "p = length pre"
  define n where "n = length (tensors x)"
  define ic where "ic = WickIndex (name j) (types i AND types j)"
  define st0 where "st0 = \<lparr>xtensors = tensors x, xctr_indices = ctr_indices x,
              xfactor = factor x, xidxs = []\<rparr>"
  define s1 where "s1 = s\<lparr>xctr_indices := xctr_indices s - {i},
                  xtensors := replace_others p ia ib ic (xtensors s)\<rparr>"
  have pn: "p < n" by (simp add: p_def n_def tx)
  have np: "n - 1 = length pre + length post" by (simp add: n_def tx)
  have ij: "(i = ia \<and> j = ib) \<or> (i = ib \<and> j = ia)" using ctr by auto
  have step: "simplify_delta_step p s = Inr s1"
  proof -
    have ne: "ia \<noteq> ib" using ctr by auto
    have nz: "\<not> ((types ia \<noteq> None_t \<or> types ib \<noteq> None_t) \<and> types ia AND types ib = None_t)"
      using compat ij by (auto simp: and.commute)
    show ?thesis
      unfolding simplify_delta_step_def s1_def ic_def using atp d ne nz ctr
      by (auto simp: Let_def and.commute p_def)
  qed
  have sp1: "[0..<n] = [0..<p] @ p # [Suc p..<n]"
  proof -
    have "[0..<p + (n - p)] = [0..<p] @ [p..<p + (n - p)]" by (rule upt_add_eq_append) simp
    moreover have "[p..<n] = p # [Suc p..<n]" using pn by (rule upt_conv_Cons)
    ultimately show ?thesis using pn by simp
  qed
  have run: "simplify_delta_loop [0..<n] st0 =
      bindE (simplify_delta_loop [0..<p] st0) (\<lambda>s.
        bindE (simplify_delta_step p s) (simplify_delta_loop [Suc p..<n]))"
  proof -
    have A: "simplify_delta_loop (p # [Suc p..<n]) =
          (\<lambda>s. bindE (simplify_delta_step p s) (simplify_delta_loop [Suc p..<n]))"
      by (rule ext) (simp del: upt_Suc)
    have B: "simplify_delta_loop ([0..<p] @ p # [Suc p..<n]) st0 =
          bindE (simplify_delta_loop [0..<p] st0) (simplify_delta_loop (p # [Suc p..<n]))"
      by (rule simplify_delta_loop_append)
    show ?thesis unfolding sp1 B A by (rule refl)
  qed
  have reach': "simplify_delta_loop [0..<p] st0 = Inr s" using reach by (simp add: p_def st0_def)
  have full: "simplify_delta_loop [0..<n] st0 = simplify_delta_loop [Suc p..<n] s1"
    using run reach' step by (simp add: bindE_def)
  have sd: "simplify_delta x = bindE (simplify_delta_loop [0..<n] st0)
       (\<lambda>st. Inr \<lparr>tensors = compact (xtensors st) (xidxs st),
                  ctr_indices = xctr_indices st, factor = xfactor st\<rparr>)"
    by (simp only: simplify_delta_def n_def st0_def)
  have eq: "simplify_delta x = bindE (simplify_delta_loop [Suc p..<n] s1)
       (\<lambda>st. Inr \<lparr>tensors = compact (xtensors st) (xidxs st),
                  ctr_indices = xctr_indices st, factor = xfactor st\<rparr>)"
    unfolding sd full by (rule refl)
  have props: "\<forall>r. simplify_delta x = Inr r \<longrightarrow>
        i \<notin> ctr_indices r \<and> length (tensors r) \<le> length pre + length post"
  proof (intro allI impI)
    fix r assume r: "simplify_delta x = Inr r"
    then obtain sF where sF: "simplify_delta_loop [Suc p..<n] s1 = Inr sF"
      and rr: "r = \<lparr>tensors = compact (xtensors sF) (xidxs sF),
                   ctr_indices = xctr_indices sF, factor = xfactor sF\<rparr>"
      unfolding eq by (auto simp: bindE_def split: sum.splits)
    have e0: "sorted_wrt (<) (xidxs st0)" "\<forall>m \<in> set (xidxs st0). m < 0" by (simp_all add: st0_def)
    from simplify_delta_loop_xidxs[OF reach' e0]
    have s: "sorted_wrt (<) (xidxs s)" "\<forall>m \<in> set (xidxs s). m < p" "length (xtensors s) = n"
      by (auto simp: max_def st0_def n_def)
    have a1: "sorted_wrt (<) (xidxs s1)" using s(1) by (simp add: s1_def)
    have a2: "\<forall>m \<in> set (xidxs s1). m < Suc p" using s(2) by (auto simp: s1_def)
    from simplify_delta_loop_xidxs[OF sF a1 a2]
    have F: "sorted_wrt (<) (xidxs sF)" "\<forall>m \<in> set (xidxs sF). m < n"
      "length (xtensors sF) = n"
      "\<forall>m \<in> set (xidxs sF). m \<in> set (xidxs s) \<or> Suc p \<le> m"
      using s(3) pn by (auto simp: max_def s1_def)
    have pF: "p \<notin> set (xidxs sF)" using F(4) s(2) by auto
    have c: "compact (xtensors sF) (xidxs sF) = map (\<lambda>k. xtensors sF ! k) (xidxs sF)"
      by (rule compact_sorted) (use F in simp_all)
    have len: "length (tensors r) \<le> length pre + length post"
      using sorted_positions_length[OF F(1,2) pF pn] c rr np by simp
    have "xctr_indices sF \<subseteq> xctr_indices s1" by (rule simplify_delta_loop_ctr[OF sF])
    then have "i \<notin> ctr_indices r" using rr by (auto simp: s1_def)
    then show "i \<notin> ctr_indices r \<and> length (tensors r) \<le> length pre + length post"
      using len by simp
  qed
  show ?thesis using eq props by (simp only: p_def n_def ic_def s1_def) 
qed

text \<open>
  Claim C3, as amended. (1) For every WickString that contains a Kronecker delta
  \<open>delta[ia, ib]\<close> which the pass over the tensors reaches unchanged, with one side \<open>i\<close>
  then still in the contraction set and the other side \<open>j\<close> not (no delta before it has
  replaced \<open>i\<close> or \<open>j\<close>), and with compatible types (both typeless, or a non-empty
  intersection): the step of that delta removes \<open>i\<close> from the contraction set, replaces
  every occurrence of \<open>i\<close> and of \<open>j\<close> in all the other tensors by the index with \<open>j\<close>'s name
  and the intersection of the two type masks, and does not keep the delta; the pass
  goes on from there with the tensors after the delta. The contraction set of the
  result does not contain \<open>i\<close>, and the result has at least one tensor less than the
  string.
  (2) When no Kronecker delta standing before it has an index with the name of \<open>i\<close> or
  of \<open>j\<close>, \<open>simplify_delta\<close> gives what it gives for the string with \<open>i\<close> removed from the
  contraction set, \<open>i\<close> and \<open>j\<close> replaced in this way in the other tensors, and that delta
  removed (the remaining deltas of this string are then treated in their turn).
  (3) When it is the only Kronecker delta, the result is this string itself, with the
  factor unchanged.
  (4) For every WickString (whose Kronecker deltas all have two indices) that contains
  a delta whose two sides are free, both typed, with an empty type intersection, the
  factor of the result is zero.
\<close>

theorem simplify_delta_spec:
  fixes x :: "('f::zero) WickString"
  shows "(tensors x = pre @ d # post \<and>
          simplify_delta_loop [0..<length pre]
            \<lparr>xtensors = tensors x, xctr_indices = ctr_indices x, xfactor = factor x, xidxs = []\<rparr> =
            Inr s \<and>
          xtensors s ! length pre = d \<and> ttype d = KroneckerDelta \<and> indices d = [ia, ib] \<and>
          ((ia \<in> xctr_indices s \<and> ib \<notin> xctr_indices s \<and> i = ia \<and> j = ib) \<or>
           (ib \<in> xctr_indices s \<and> ia \<notin> xctr_indices s \<and> i = ib \<and> j = ia)) \<and>
          (types i AND types j \<noteq> None_t \<or> (types i = None_t \<and> types j = None_t))
          \<longrightarrow> simplify_delta x =
                 bindE (simplify_delta_loop [Suc (length pre)..<length (tensors x)]
                          (s\<lparr>xctr_indices := xctr_indices s - {i},
                             xtensors := replace_others (length pre) ia ib
                                (WickIndex (name j) (types i AND types j)) (xtensors s)\<rparr>))
                   (\<lambda>st. Inr \<lparr>tensors = compact (xtensors st) (xidxs st),
                              ctr_indices = xctr_indices st, factor = xfactor st\<rparr>) \<and>
               (\<forall>r. simplify_delta x = Inr r \<longrightarrow>
                  i \<notin> ctr_indices r \<and> length (tensors r) \<le> length pre + length post)) \<and>
         (tensors x = pre @ d # post \<and> ttype d = KroneckerDelta \<and> indices d = [ia, ib] \<and>
          (\<forall>t \<in> set pre. ttype t = KroneckerDelta \<longrightarrow>
             (\<forall>w \<in> set (indices t). name w \<noteq> name i \<and> name w \<noteq> name j)) \<and>
          ((ia \<in> ctr_indices x \<and> ib \<notin> ctr_indices x \<and> i = ia \<and> j = ib) \<or>
           (ib \<in> ctr_indices x \<and> ia \<notin> ctr_indices x \<and> i = ib \<and> j = ia)) \<and>
          (types i AND types j \<noteq> None_t \<or> (types i = None_t \<and> types j = None_t))
          \<longrightarrow> simplify_delta x =
                simplify_delta
                  \<lparr>tensors = map (replace_index i j (WickIndex (name j) (types i AND types j)))
                                  (pre @ post),
                   ctr_indices = ctr_indices x - {i}, factor = factor x\<rparr> \<and>
               (\<forall>r. simplify_delta x = Inr r \<longrightarrow> ctr_indices r \<subseteq> ctr_indices x - {i})) \<and>
         (tensors x = pre @ d # post \<and> ttype d = KroneckerDelta \<and> indices d = [ia, ib] \<and>
          (\<forall>t \<in> set (pre @ post). ttype t \<noteq> KroneckerDelta) \<and>
          ((ia \<in> ctr_indices x \<and> ib \<notin> ctr_indices x \<and> i = ia \<and> j = ib) \<or>
           (ib \<in> ctr_indices x \<and> ia \<notin> ctr_indices x \<and> i = ib \<and> j = ia)) \<and>
          (types i AND types j \<noteq> None_t \<or> (types i = None_t \<and> types j = None_t))
          \<longrightarrow> simplify_delta x =
                Inr \<lparr>tensors = map (replace_index i j (WickIndex (name j) (types i AND types j)))
                                  (pre @ post),
                     ctr_indices = ctr_indices x - {i}, factor = factor x\<rparr>) \<and>
         (p < length (tensors x) \<and> ttype (tensors x ! p) = KroneckerDelta \<and>
          indices (tensors x ! p) = [a, b] \<and> a \<notin> ctr_indices x \<and> b \<notin> ctr_indices x \<and>
          types a \<noteq> None_t \<and> types b \<noteq> None_t \<and> types a AND types b = None_t \<and>
          (\<forall>t \<in> set (tensors x). ttype t = KroneckerDelta \<longrightarrow> 2 \<le> length (indices t))
          \<longrightarrow> (\<exists>r. simplify_delta x = Inr r \<and> factor r = 0))"
proof (intro conjI impI)
  assume h: "tensors x = pre @ d # post \<and>
          simplify_delta_loop [0..<length pre]
            \<lparr>xtensors = tensors x, xctr_indices = ctr_indices x, xfactor = factor x, xidxs = []\<rparr> =
            Inr s \<and>
          xtensors s ! length pre = d \<and> ttype d = KroneckerDelta \<and> indices d = [ia, ib] \<and>
          ((ia \<in> xctr_indices s \<and> ib \<notin> xctr_indices s \<and> i = ia \<and> j = ib) \<or>
           (ib \<in> xctr_indices s \<and> ia \<notin> xctr_indices s \<and> i = ib \<and> j = ia)) \<and>
          (types i AND types j \<noteq> None_t \<or> (types i = None_t \<and> types j = None_t))"
  have r: "simplify_delta x =
       bindE (simplify_delta_loop [Suc (length pre)..<length (tensors x)]
                (s\<lparr>xctr_indices := xctr_indices s - {i},
                   xtensors := replace_others (length pre) ia ib
                      (WickIndex (name j) (types i AND types j)) (xtensors s)\<rparr>))
         (\<lambda>st. Inr \<lparr>tensors = compact (xtensors st) (xidxs st),
                    ctr_indices = xctr_indices st, factor = xfactor st\<rparr>) \<and>
     (\<forall>r. simplify_delta x = Inr r \<longrightarrow>
        i \<notin> ctr_indices r \<and> length (tensors r) \<le> length pre + length post)"
    by (rule simplify_delta_reach[of x pre d post s ia ib i j]) (use h in blast)+
  from r show "simplify_delta x =
       bindE (simplify_delta_loop [Suc (length pre)..<length (tensors x)]
                (s\<lparr>xctr_indices := xctr_indices s - {i},
                   xtensors := replace_others (length pre) ia ib
                      (WickIndex (name j) (types i AND types j)) (xtensors s)\<rparr>))
         (\<lambda>st. Inr \<lparr>tensors = compact (xtensors st) (xidxs st),
                    ctr_indices = xctr_indices st, factor = xfactor st\<rparr>)"
    by (rule conjunct1)
  from r show "\<forall>r. simplify_delta x = Inr r \<longrightarrow>
        i \<notin> ctr_indices r \<and> length (tensors r) \<le> length pre + length post"
    by (rule conjunct2)
next
  assume h: "tensors x = pre @ d # post \<and> ttype d = KroneckerDelta \<and> indices d = [ia, ib] \<and>
          (\<forall>t \<in> set pre. ttype t = KroneckerDelta \<longrightarrow>
             (\<forall>w \<in> set (indices t). name w \<noteq> name i \<and> name w \<noteq> name j)) \<and>
          ((ia \<in> ctr_indices x \<and> ib \<notin> ctr_indices x \<and> i = ia \<and> j = ib) \<or>
           (ib \<in> ctr_indices x \<and> ia \<notin> ctr_indices x \<and> i = ib \<and> j = ia)) \<and>
          (types i AND types j \<noteq> None_t \<or> (types i = None_t \<and> types j = None_t))"
  have names: "\<forall>t \<in> set pre. ttype t = KroneckerDelta \<longrightarrow> avoids i j t"
    using h unfolding avoids_def by blast
  show e: "simplify_delta x =
        simplify_delta
          \<lparr>tensors = map (replace_index i j (WickIndex (name j) (types i AND types j))) (pre @ post),
           ctr_indices = ctr_indices x - {i}, factor = factor x\<rparr>"
    by (rule simplify_delta_eliminate[OF _ _ _ names]) (use h in blast)+
  show "\<forall>r. simplify_delta x = Inr r \<longrightarrow> ctr_indices r \<subseteq> ctr_indices x - {i}"
  proof (intro allI impI)
    fix r assume "simplify_delta x = Inr r"
    then have "simplify_delta
          \<lparr>tensors = map (replace_index i j (WickIndex (name j) (types i AND types j))) (pre @ post),
           ctr_indices = ctr_indices x - {i}, factor = factor x\<rparr> = Inr r"
      using e by simp
    from simplify_delta_ctr[OF this] show "ctr_indices r \<subseteq> ctr_indices x - {i}" by simp
  qed
next
  assume h: "tensors x = pre @ d # post \<and> ttype d = KroneckerDelta \<and> indices d = [ia, ib] \<and>
          (\<forall>t \<in> set (pre @ post). ttype t \<noteq> KroneckerDelta) \<and>
          ((ia \<in> ctr_indices x \<and> ib \<notin> ctr_indices x \<and> i = ia \<and> j = ib) \<or>
           (ib \<in> ctr_indices x \<and> ia \<notin> ctr_indices x \<and> i = ib \<and> j = ia)) \<and>
          (types i AND types j \<noteq> None_t \<or> (types i = None_t \<and> types j = None_t))"
  show "simplify_delta x =
                Inr \<lparr>tensors = map (replace_index i j (WickIndex (name j) (types i AND types j)))
                                  (pre @ post),
                     ctr_indices = ctr_indices x - {i}, factor = factor x\<rparr>"
    by (rule simplify_delta_single) (use h in blast)+
next
  assume h: "p < length (tensors x) \<and> ttype (tensors x ! p) = KroneckerDelta \<and>
          indices (tensors x ! p) = [a, b] \<and> a \<notin> ctr_indices x \<and> b \<notin> ctr_indices x \<and>
          types a \<noteq> None_t \<and> types b \<noteq> None_t \<and> types a AND types b = None_t \<and>
          (\<forall>t \<in> set (tensors x). ttype t = KroneckerDelta \<longrightarrow> 2 \<le> length (indices t))"
  show "\<exists>r. simplify_delta x = Inr r \<and> factor r = 0"
    by (rule simplify_delta_conflict[of p x a b]) (use h in blast)+
qed

text \<open>
  Claim C3 as stated fails in three ways. With \<open>i\<close> summed and Inactive and \<open>j\<close> free
  and Active, the type check comes first: the factor becomes zero, \<open>i\<close> stays in the
  contraction set and nothing is replaced. With two deltas \<open>delta[i,k] delta[i,j]\<close>
  and \<open>i\<close> summed, the first delta replaces \<open>i\<close> by \<open>k\<close> everywhere, so the second
  one is kept as \<open>delta[k,j]\<close> and \<open>T[i]\<close> becomes \<open>T[k]\<close>, not \<open>T[j]\<close>. With
  \<open>delta[j,k] delta[i,j] T[i]\<close>, \<open>i\<close> and \<open>k\<close> summed, \<open>i\<close> and \<open>j\<close> of type
  Inactive or Active and \<open>k\<close> Inactive, the first delta narrows \<open>j\<close> to Inactive, so
  \<open>T[i]\<close> becomes \<open>T[j]\<close> with \<open>j\<close> Inactive, not with the intersection of the types
  that \<open>delta[i,j]\<close> has in the string.
\<close>

theorem simplify_delta_counterexample:
  "simplify_delta
     \<lparr>tensors = [\<lparr>tname = ''delta'', indices = [WickIndex ''i'' Inactive, WickIndex ''j'' Active],
                  perms = [\<lparr>data = [0, 1], negative = False\<rparr>], ttype = KroneckerDelta\<rparr>,
                 \<lparr>tname = ''T'', indices = [WickIndex ''i'' Inactive, WickIndex ''k'' None_t],
                  perms = [\<lparr>data = [0, 1], negative = False\<rparr>], ttype = Tensor\<rparr>],
      ctr_indices = {WickIndex ''i'' Inactive}, factor = (1 :: real)\<rparr> =
   Inr \<lparr>tensors = [\<lparr>tname = ''T'', indices = [WickIndex ''i'' Inactive, WickIndex ''k'' None_t],
                  perms = [\<lparr>data = [0, 1], negative = False\<rparr>], ttype = Tensor\<rparr>],
        ctr_indices = {WickIndex ''i'' Inactive}, factor = 0\<rparr> \<and>
   simplify_delta
     \<lparr>tensors = [\<lparr>tname = ''delta'', indices = [WickIndex ''i'' None_t, WickIndex ''k'' None_t],
                  perms = [\<lparr>data = [0, 1], negative = False\<rparr>, \<lparr>data = [1, 0], negative = False\<rparr>],
                  ttype = KroneckerDelta\<rparr>,
                 \<lparr>tname = ''delta'', indices = [WickIndex ''i'' None_t, WickIndex ''j'' None_t],
                  perms = [\<lparr>data = [0, 1], negative = False\<rparr>, \<lparr>data = [1, 0], negative = False\<rparr>],
                  ttype = KroneckerDelta\<rparr>,
                 \<lparr>tname = ''T'', indices = [WickIndex ''i'' None_t],
                  perms = [\<lparr>data = [0], negative = False\<rparr>], ttype = Tensor\<rparr>],
      ctr_indices = {WickIndex ''i'' None_t}, factor = (1 :: real)\<rparr> =
   Inr \<lparr>tensors = [\<lparr>tname = ''delta'', indices = [WickIndex ''k'' None_t, WickIndex ''j'' None_t],
                  perms = [\<lparr>data = [0, 1], negative = False\<rparr>, \<lparr>data = [1, 0], negative = False\<rparr>],
                  ttype = KroneckerDelta\<rparr>,
                 \<lparr>tname = ''T'', indices = [WickIndex ''k'' None_t],
                  perms = [\<lparr>data = [0], negative = False\<rparr>], ttype = Tensor\<rparr>],
        ctr_indices = {}, factor = 1\<rparr> \<and>
   simplify_delta
     \<lparr>tensors = [\<lparr>tname = ''delta'',
                  indices = [WickIndex ''j'' (Inactive OR Active), WickIndex ''k'' Inactive],
                  perms = [\<lparr>data = [0, 1], negative = False\<rparr>, \<lparr>data = [1, 0], negative = False\<rparr>],
                  ttype = KroneckerDelta\<rparr>,
                 \<lparr>tname = ''delta'',
                  indices = [WickIndex ''i'' (Inactive OR Active), WickIndex ''j'' (Inactive OR Active)],
                  perms = [\<lparr>data = [0, 1], negative = False\<rparr>, \<lparr>data = [1, 0], negative = False\<rparr>],
                  ttype = KroneckerDelta\<rparr>,
                 \<lparr>tname = ''T'', indices = [WickIndex ''i'' (Inactive OR Active)],
                  perms = [\<lparr>data = [0], negative = False\<rparr>], ttype = Tensor\<rparr>],
      ctr_indices = {WickIndex ''i'' (Inactive OR Active), WickIndex ''k'' Inactive},
      factor = (1 :: real)\<rparr> =
   Inr \<lparr>tensors = [\<lparr>tname = ''T'', indices = [WickIndex ''j'' Inactive],
                  perms = [\<lparr>data = [0], negative = False\<rparr>], ttype = Tensor\<rparr>],
        ctr_indices = {}, factor = 1\<rparr>"
  by code_simp

lemma simplify_delta_conflict_example:
  "simplify_delta
     \<lparr>tensors = [\<lparr>tname = ''delta'', indices = [WickIndex ''a'' Inactive, WickIndex ''b'' Active],
                  perms = [\<lparr>data = [0, 1], negative = False\<rparr>], ttype = KroneckerDelta\<rparr>,
                 \<lparr>tname = ''T'', indices = [WickIndex ''a'' Inactive],
                  perms = [\<lparr>data = [0], negative = False\<rparr>], ttype = Tensor\<rparr>],
      ctr_indices = {}, factor = (1 :: real)\<rparr> =
   Inr \<lparr>tensors = [\<lparr>tname = ''T'', indices = [WickIndex ''a'' Inactive],
                  perms = [\<lparr>data = [0], negative = False\<rparr>], ttype = Tensor\<rparr>],
        ctr_indices = {}, factor = 0\<rparr>"
  by code_simp

lemma simplify_delta_rest_example:
  "simplify_delta
     \<lparr>tensors = [\<lparr>tname = ''delta'', indices = [WickIndex ''p'' None_t, WickIndex ''q'' None_t],
                  perms = [\<lparr>data = [0, 1], negative = False\<rparr>, \<lparr>data = [1, 0], negative = False\<rparr>],
                  ttype = KroneckerDelta\<rparr>,
                 \<lparr>tname = ''delta'', indices = [WickIndex ''k'' None_t, WickIndex ''l'' None_t],
                  perms = [\<lparr>data = [0, 1], negative = False\<rparr>, \<lparr>data = [1, 0], negative = False\<rparr>],
                  ttype = KroneckerDelta\<rparr>,
                 \<lparr>tname = ''T'', indices = [WickIndex ''j'' None_t, WickIndex ''k'' None_t,
                                            WickIndex ''p'' None_t],
                  perms = [\<lparr>data = [0, 1, 2], negative = False\<rparr>], ttype = Tensor\<rparr>],
      ctr_indices = {WickIndex ''k'' None_t}, factor = (1 :: real)\<rparr> =
   Inr \<lparr>tensors = [\<lparr>tname = ''delta'', indices = [WickIndex ''p'' None_t, WickIndex ''q'' None_t],
                  perms = [\<lparr>data = [0, 1], negative = False\<rparr>, \<lparr>data = [1, 0], negative = False\<rparr>],
                  ttype = KroneckerDelta\<rparr>,
                 \<lparr>tname = ''T'', indices = [WickIndex ''j'' None_t, WickIndex ''l'' None_t,
                                            WickIndex ''p'' None_t],
                  perms = [\<lparr>data = [0, 1, 2], negative = False\<rparr>], ttype = Tensor\<rparr>],
        ctr_indices = {}, factor = 1\<rparr>"
  by code_simp

lemma simplify_delta_reach_example:
  "simplify_delta_loop
     [0..<length [\<lparr>tname = ''delta'', indices = [WickIndex ''j'' None_t, WickIndex ''q'' None_t],
                   perms = [\<lparr>data = [0, 1], negative = False\<rparr>, \<lparr>data = [1, 0], negative = False\<rparr>],
                   ttype = KroneckerDelta\<rparr>]]
     \<lparr>xtensors = [\<lparr>tname = ''delta'', indices = [WickIndex ''j'' None_t, WickIndex ''q'' None_t],
                   perms = [\<lparr>data = [0, 1], negative = False\<rparr>, \<lparr>data = [1, 0], negative = False\<rparr>],
                   ttype = KroneckerDelta\<rparr>,
                  \<lparr>tname = ''delta'', indices = [WickIndex ''i'' None_t, WickIndex ''j'' None_t],
                   perms = [\<lparr>data = [0, 1], negative = False\<rparr>, \<lparr>data = [1, 0], negative = False\<rparr>],
                   ttype = KroneckerDelta\<rparr>,
                  \<lparr>tname = ''T'', indices = [WickIndex ''i'' None_t],
                   perms = [\<lparr>data = [0], negative = False\<rparr>], ttype = Tensor\<rparr>],
       xctr_indices = {WickIndex ''i'' None_t}, xfactor = (1 :: real), xidxs = []\<rparr> =
   Inr \<lparr>xtensors = [\<lparr>tname = ''delta'', indices = [WickIndex ''j'' None_t, WickIndex ''q'' None_t],
                   perms = [\<lparr>data = [0, 1], negative = False\<rparr>, \<lparr>data = [1, 0], negative = False\<rparr>],
                   ttype = KroneckerDelta\<rparr>,
                  \<lparr>tname = ''delta'', indices = [WickIndex ''i'' None_t, WickIndex ''j'' None_t],
                   perms = [\<lparr>data = [0, 1], negative = False\<rparr>, \<lparr>data = [1, 0], negative = False\<rparr>],
                   ttype = KroneckerDelta\<rparr>,
                  \<lparr>tname = ''T'', indices = [WickIndex ''i'' None_t],
                   perms = [\<lparr>data = [0], negative = False\<rparr>], ttype = Tensor\<rparr>],
       xctr_indices = {WickIndex ''i'' None_t}, xfactor = 1, xidxs = [0]\<rparr> \<and>
   simplify_delta
     \<lparr>tensors = [\<lparr>tname = ''delta'', indices = [WickIndex ''j'' None_t, WickIndex ''q'' None_t],
                   perms = [\<lparr>data = [0, 1], negative = False\<rparr>, \<lparr>data = [1, 0], negative = False\<rparr>],
                   ttype = KroneckerDelta\<rparr>,
                  \<lparr>tname = ''delta'', indices = [WickIndex ''i'' None_t, WickIndex ''j'' None_t],
                   perms = [\<lparr>data = [0, 1], negative = False\<rparr>, \<lparr>data = [1, 0], negative = False\<rparr>],
                   ttype = KroneckerDelta\<rparr>,
                  \<lparr>tname = ''T'', indices = [WickIndex ''i'' None_t],
                   perms = [\<lparr>data = [0], negative = False\<rparr>], ttype = Tensor\<rparr>],
      ctr_indices = {WickIndex ''i'' None_t}, factor = (1 :: real)\<rparr> =
   Inr \<lparr>tensors = [\<lparr>tname = ''delta'', indices = [WickIndex ''j'' None_t, WickIndex ''q'' None_t],
                   perms = [\<lparr>data = [0, 1], negative = False\<rparr>, \<lparr>data = [1, 0], negative = False\<rparr>],
                   ttype = KroneckerDelta\<rparr>,
                  \<lparr>tname = ''T'', indices = [WickIndex ''j'' None_t],
                   perms = [\<lparr>data = [0], negative = False\<rparr>], ttype = Tensor\<rparr>],
        ctr_indices = {}, factor = 1\<rparr>"
  by code_simp

theorem simplify_delta_spec_witness:
  "simplify_delta
     \<lparr>tensors = [\<lparr>tname = ''delta'', indices = [WickIndex ''j'' None_t, WickIndex ''q'' None_t],
                   perms = [\<lparr>data = [0, 1], negative = False\<rparr>, \<lparr>data = [1, 0], negative = False\<rparr>],
                   ttype = KroneckerDelta\<rparr>,
                  \<lparr>tname = ''delta'', indices = [WickIndex ''i'' None_t, WickIndex ''j'' None_t],
                   perms = [\<lparr>data = [0, 1], negative = False\<rparr>, \<lparr>data = [1, 0], negative = False\<rparr>],
                   ttype = KroneckerDelta\<rparr>,
                  \<lparr>tname = ''T'', indices = [WickIndex ''i'' None_t],
                   perms = [\<lparr>data = [0], negative = False\<rparr>], ttype = Tensor\<rparr>],
      ctr_indices = {WickIndex ''i'' None_t}, factor = (1 :: real)\<rparr> =
   Inr \<lparr>tensors = [\<lparr>tname = ''delta'', indices = [WickIndex ''j'' None_t, WickIndex ''q'' None_t],
                   perms = [\<lparr>data = [0, 1], negative = False\<rparr>, \<lparr>data = [1, 0], negative = False\<rparr>],
                   ttype = KroneckerDelta\<rparr>,
                  \<lparr>tname = ''T'', indices = [WickIndex ''j'' None_t],
                   perms = [\<lparr>data = [0], negative = False\<rparr>], ttype = Tensor\<rparr>],
        ctr_indices = {}, factor = 1\<rparr> \<and>
   simplify_delta
     \<lparr>tensors = [\<lparr>tname = ''delta'', indices = [WickIndex ''p'' None_t, WickIndex ''q'' None_t],
                  perms = [\<lparr>data = [0, 1], negative = False\<rparr>, \<lparr>data = [1, 0], negative = False\<rparr>],
                  ttype = KroneckerDelta\<rparr>,
                 \<lparr>tname = ''delta'', indices = [WickIndex ''i'' None_t, WickIndex ''j'' None_t],
                  perms = [\<lparr>data = [0, 1], negative = False\<rparr>, \<lparr>data = [1, 0], negative = False\<rparr>],
                  ttype = KroneckerDelta\<rparr>,
                 \<lparr>tname = ''delta'', indices = [WickIndex ''k'' None_t, WickIndex ''l'' None_t],
                  perms = [\<lparr>data = [0, 1], negative = False\<rparr>, \<lparr>data = [1, 0], negative = False\<rparr>],
                  ttype = KroneckerDelta\<rparr>,
                 \<lparr>tname = ''T'', indices = [WickIndex ''i'' None_t, WickIndex ''k'' None_t,
                                            WickIndex ''p'' None_t],
                  perms = [\<lparr>data = [0, 1, 2], negative = False\<rparr>], ttype = Tensor\<rparr>],
      ctr_indices = {WickIndex ''i'' None_t, WickIndex ''k'' None_t}, factor = (1 :: real)\<rparr> =
   Inr \<lparr>tensors = [\<lparr>tname = ''delta'', indices = [WickIndex ''p'' None_t, WickIndex ''q'' None_t],
                  perms = [\<lparr>data = [0, 1], negative = False\<rparr>, \<lparr>data = [1, 0], negative = False\<rparr>],
                  ttype = KroneckerDelta\<rparr>,
                 \<lparr>tname = ''T'', indices = [WickIndex ''j'' None_t, WickIndex ''l'' None_t,
                                            WickIndex ''p'' None_t],
                  perms = [\<lparr>data = [0, 1, 2], negative = False\<rparr>], ttype = Tensor\<rparr>],
        ctr_indices = {}, factor = 1\<rparr> \<and>
   simplify_delta
     \<lparr>tensors = [\<lparr>tname = ''delta'', indices = [WickIndex ''i'' None_t, WickIndex ''j'' None_t],
                  perms = [\<lparr>data = [0, 1], negative = False\<rparr>, \<lparr>data = [1, 0], negative = False\<rparr>],
                  ttype = KroneckerDelta\<rparr>,
                 \<lparr>tname = ''T'', indices = [WickIndex ''i'' None_t, WickIndex ''k'' None_t],
                  perms = [\<lparr>data = [0, 1], negative = False\<rparr>], ttype = Tensor\<rparr>],
      ctr_indices = {WickIndex ''i'' None_t}, factor = (1 :: real)\<rparr> =
   Inr \<lparr>tensors = [\<lparr>tname = ''T'', indices = [WickIndex ''j'' None_t, WickIndex ''k'' None_t],
                  perms = [\<lparr>data = [0, 1], negative = False\<rparr>], ttype = Tensor\<rparr>],
        ctr_indices = {}, factor = 1\<rparr> \<and>
   simplify_delta
     \<lparr>tensors = [\<lparr>tname = ''delta'', indices = [WickIndex ''a'' Inactive, WickIndex ''b'' Active],
                  perms = [\<lparr>data = [0, 1], negative = False\<rparr>], ttype = KroneckerDelta\<rparr>,
                 \<lparr>tname = ''T'', indices = [WickIndex ''a'' Inactive],
                  perms = [\<lparr>data = [0], negative = False\<rparr>], ttype = Tensor\<rparr>],
      ctr_indices = {}, factor = (1 :: real)\<rparr> =
   Inr \<lparr>tensors = [\<lparr>tname = ''T'', indices = [WickIndex ''a'' Inactive],
                  perms = [\<lparr>data = [0], negative = False\<rparr>], ttype = Tensor\<rparr>],
        ctr_indices = {}, factor = 0\<rparr>"
proof -
  let ?dpq = "\<lparr>tname = ''delta'', indices = [WickIndex ''p'' None_t, WickIndex ''q'' None_t],
                  perms = [\<lparr>data = [0, 1], negative = False\<rparr>, \<lparr>data = [1, 0], negative = False\<rparr>],
                  ttype = KroneckerDelta\<rparr>"
  let ?d = "\<lparr>tname = ''delta'', indices = [WickIndex ''i'' None_t, WickIndex ''j'' None_t],
                  perms = [\<lparr>data = [0, 1], negative = False\<rparr>, \<lparr>data = [1, 0], negative = False\<rparr>],
                  ttype = KroneckerDelta\<rparr>"
  let ?dkl = "\<lparr>tname = ''delta'', indices = [WickIndex ''k'' None_t, WickIndex ''l'' None_t],
                  perms = [\<lparr>data = [0, 1], negative = False\<rparr>, \<lparr>data = [1, 0], negative = False\<rparr>],
                  ttype = KroneckerDelta\<rparr>"
  let ?T3 = "\<lparr>tname = ''T'', indices = [WickIndex ''i'' None_t, WickIndex ''k'' None_t,
                                            WickIndex ''p'' None_t],
                  perms = [\<lparr>data = [0, 1, 2], negative = False\<rparr>], ttype = Tensor\<rparr>"
  let ?T = "\<lparr>tname = ''T'', indices = [WickIndex ''i'' None_t, WickIndex ''k'' None_t],
                  perms = [\<lparr>data = [0, 1], negative = False\<rparr>], ttype = Tensor\<rparr>"
  let ?djq = "\<lparr>tname = ''delta'', indices = [WickIndex ''j'' None_t, WickIndex ''q'' None_t],
                  perms = [\<lparr>data = [0, 1], negative = False\<rparr>, \<lparr>data = [1, 0], negative = False\<rparr>],
                  ttype = KroneckerDelta\<rparr>"
  let ?T1 = "\<lparr>tname = ''T'', indices = [WickIndex ''i'' None_t],
                  perms = [\<lparr>data = [0], negative = False\<rparr>], ttype = Tensor\<rparr>"
  let ?v = "\<lparr>tensors = [?djq, ?d, ?T1], ctr_indices = {WickIndex ''i'' None_t},
             factor = (1 :: real)\<rparr>"
  let ?s = "\<lparr>xtensors = [?djq, ?d, ?T1], xctr_indices = {WickIndex ''i'' None_t},
             xfactor = (1 :: real), xidxs = [0]\<rparr>"
  let ?w = "\<lparr>tensors = [?dpq, ?d, ?dkl, ?T3],
             ctr_indices = {WickIndex ''i'' None_t, WickIndex ''k'' None_t}, factor = (1 :: real)\<rparr>"
  let ?x = "\<lparr>tensors = [?d, ?T], ctr_indices = {WickIndex ''i'' None_t}, factor = (1 :: real)\<rparr>"
  let ?y = "\<lparr>tensors = [\<lparr>tname = ''delta'', indices = [WickIndex ''a'' Inactive, WickIndex ''b'' Active],
                  perms = [\<lparr>data = [0, 1], negative = False\<rparr>], ttype = KroneckerDelta\<rparr>,
                 \<lparr>tname = ''T'', indices = [WickIndex ''a'' Inactive],
                  perms = [\<lparr>data = [0], negative = False\<rparr>], ttype = Tensor\<rparr>],
      ctr_indices = {}, factor = (1 :: real)\<rparr>"
  have "simplify_delta ?w =
     simplify_delta
       \<lparr>tensors = [?dpq, ?dkl,
                   \<lparr>tname = ''T'', indices = [WickIndex ''j'' None_t, WickIndex ''k'' None_t,
                                            WickIndex ''p'' None_t],
                    perms = [\<lparr>data = [0, 1, 2], negative = False\<rparr>], ttype = Tensor\<rparr>],
        ctr_indices = {WickIndex ''k'' None_t}, factor = (1 :: real)\<rparr>"
    using simplify_delta_spec[of ?w "[?dpq]" ?d "[?dkl, ?T3]" _ "WickIndex ''i'' None_t"
        "WickIndex ''j'' None_t" "WickIndex ''i'' None_t" "WickIndex ''j'' None_t",
        THEN conjunct2, THEN conjunct1]
    by (simp add: replace_index_def None_t_def insert_Diff_if)
  then have many: "simplify_delta ?w =
     Inr \<lparr>tensors = [?dpq,
                   \<lparr>tname = ''T'', indices = [WickIndex ''j'' None_t, WickIndex ''l'' None_t,
                                            WickIndex ''p'' None_t],
                    perms = [\<lparr>data = [0, 1, 2], negative = False\<rparr>], ttype = Tensor\<rparr>],
        ctr_indices = {}, factor = 1\<rparr>"
    using simplify_delta_rest_example by simp
  have one: "simplify_delta ?x =
     Inr \<lparr>tensors = [\<lparr>tname = ''T'', indices = [WickIndex ''j'' None_t, WickIndex ''k'' None_t],
                  perms = [\<lparr>data = [0, 1], negative = False\<rparr>], ttype = Tensor\<rparr>],
        ctr_indices = {}, factor = 1\<rparr>"
    using simplify_delta_spec[of ?x "[]" ?d "[?T]" _ "WickIndex ''i'' None_t" "WickIndex ''j'' None_t"
        "WickIndex ''i'' None_t" "WickIndex ''j'' None_t", THEN conjunct2, THEN conjunct2, THEN conjunct1]
    by (simp add: replace_index_def None_t_def)
  have "\<exists>r. simplify_delta ?y = Inr r \<and> factor r = 0"
    using simplify_delta_spec[of ?y _ _ _ _ _ _ _ _ 0 "WickIndex ''a'' Inactive" "WickIndex ''b'' Active",
        THEN conjunct2, THEN conjunct2, THEN conjunct2]
    by (simp add: None_t_def Inactive_def Active_def)
  moreover have "\<forall>r. simplify_delta ?v = Inr r \<longrightarrow>
        WickIndex ''i'' None_t \<notin> ctr_indices r \<and> length (tensors r) \<le> length [?djq] + length [?T1]"
    by (rule mp[OF simplify_delta_spec[of ?v "[?djq]" ?d "[?T1]" ?s "WickIndex ''i'' None_t"
        "WickIndex ''j'' None_t" "WickIndex ''i'' None_t" "WickIndex ''j'' None_t", THEN conjunct1],
        THEN conjunct2])
       (use simplify_delta_reach_example in \<open>simp add: None_t_def\<close>)
  ultimately show ?thesis using many one simplify_delta_conflict_example simplify_delta_reach_example
    by simp
qed

subsection \<open>Product of two terms\<close>

definition used_indices :: "'f WickString \<Rightarrow> WickIndex set" where
  "used_indices x = (\<Union>t \<in> set (tensors x). set (indices t))"

text \<open>
  \<open>g.name[0] += i\<close>: the first byte of the name, plus \<open>i\<close>, as a byte again. The
  caller makes sure the name is not empty (writing to \<open>name[0]\<close> of an empty string is
  undefined behaviour in C++).
\<close>

definition bump_name :: "WickIndex \<Rightarrow> nat \<Rightarrow> WickIndex" where
  "bump_name idx i =
     WickIndex (char_of (of_char (hd (name idx)) + i :: nat) # tl (name idx)) (types idx)"

text \<open>The search \<open>for (int i = 1; i < 100; i++)\<close> for an unused name.\<close>

fun find_fresh :: "WickIndex \<Rightarrow> WickIndex set \<Rightarrow> nat list \<Rightarrow> WickIndex option" where
  "find_fresh idx used [] = None"
| "find_fresh idx used (i # rest) =
     (if bump_name idx i \<notin> used then Some (bump_name idx i) else find_fresh idx used rest)"

text \<open>
  The loop over \<open>used_idxs\<close> that fills \<open>mp_idxs\<close>. The set grows while the loop runs;
  the indices added are new names, which are in neither \<open>xa_rep\<close> nor \<open>xb_rep\<close>, so
  visiting them changes nothing and the loop is one pass over the original set, in the
  order of the set.
\<close>

fun rename_loop :: "WickIndex list \<Rightarrow> WickIndex set
    \<Rightarrow> WickIndex set \<times> (WickIndex \<rightharpoonup> WickIndex)
    \<Rightarrow> error + WickIndex set \<times> (WickIndex \<rightharpoonup> WickIndex)" where
  "rename_loop [] rep s = Inr s"
| "rename_loop (idx # rest) rep s =
     (if idx \<in> rep then
        (if name idx = [] then Inl OutOfRange
         else (case find_fresh idx (fst s) [1..<100] of
                 None \<Rightarrow> rename_loop rest rep s
               | Some g \<Rightarrow> rename_loop rest rep (insert g (fst s), (snd s)(idx \<mapsto> g))))
      else rename_loop rest rep s)"

definition rename_a :: "(WickIndex \<rightharpoonup> WickIndex) \<Rightarrow> WickIndex set \<Rightarrow> WickIndex set
    \<Rightarrow> WickIndex \<Rightarrow> WickIndex" where
  "rename_a mp xa_rep xc_rep wi =
     (case mp wi of
        Some g \<Rightarrow> if wi \<in> xa_rep \<and> wi \<notin> xc_rep then g else wi
      | None \<Rightarrow> wi)"

definition rename_b :: "(WickIndex \<rightharpoonup> WickIndex) \<Rightarrow> WickIndex set \<Rightarrow> WickIndex \<Rightarrow> WickIndex" where
  "rename_b mp xb_rep wi =
     (case mp wi of
        Some g \<Rightarrow> if wi \<in> xb_rep then g else wi
      | None \<Rightarrow> wi)"

definition map_indices :: "(WickIndex \<Rightarrow> WickIndex) \<Rightarrow> WickTensor \<Rightarrow> WickTensor" where
  "map_indices f t = t\<lparr>indices := map f (indices t)\<rparr>"

text \<open>\<open>WickString::operator*(const WickString &)\<close>.\<close>

definition string_mul :: "('f::times) WickString \<Rightarrow> 'f WickString \<Rightarrow> error + 'f WickString" where
  "string_mul a b =
     (let a_idxs = used_indices a; b_idxs = used_indices b;
          used_idxs = a_idxs \<union> b_idxs;
          xa_rep = ctr_indices a \<inter> b_idxs;
          xb_rep = ctr_indices b \<inter> a_idxs;
          xc_rep = ctr_indices a \<inter> ctr_indices b
      in bindE (rename_loop (sorted_list_of_set used_idxs) (xa_rep \<union> xb_rep) (used_idxs, Map.empty))
           (\<lambda>s. Inr \<lparr>tensors = map (map_indices (rename_a (snd s) xa_rep xc_rep)) (tensors a) @
                                map (map_indices (rename_b (snd s) xb_rep)) (tensors b),
                      ctr_indices = rename_a (snd s) xa_rep xc_rep ` ctr_indices a \<union>
                                    rename_b (snd s) xb_rep ` ctr_indices b,
                      factor = factor a * factor b\<rparr>))"

lemma find_fresh_None:
  "find_fresh idx used js = None \<Longrightarrow> bump_name idx ` set js \<subseteq> used"
  by (induction js) (auto split: if_splits)

lemma find_fresh_Some:
  "find_fresh idx used js = Some g \<Longrightarrow> g \<notin> used \<and> g \<in> bump_name idx ` set js"
  by (induction js) (auto split: if_splits)

lemma bump_name_inj:
  assumes "bump_name idx i = bump_name idx j" and "i < 256" and "j < 256"
  shows "i = j"
proof -
  let ?c = "of_char (hd (name idx)) :: nat"
  from assms(1) have "char_of (?c + i) = (char_of (?c + j) :: char)"
    by (simp add: bump_name_def)
  then have "(?c + i) mod 256 = (?c + j) mod 256"
    by (simp add: char_of_eq_iff take_bit_eq_mod)
  then have eq: "(?c mod 256 + i) mod 256 = (?c mod 256 + j) mod 256"
    by (simp add: mod_add_left_eq)
  have red: "(k + m) mod 256 = (if k + m < 256 then k + m else k + m - 256)"
    if "k < 256" "m < 256" for k m :: nat
  proof (cases "k + m < 256")
    case True
    then show ?thesis by simp
  next
    case False
    then have "(k + m) mod 256 = (k + m - 256) mod 256" by (simp add: le_mod_geq)
    moreover have "k + m - 256 < 256" using that by simp
    ultimately show ?thesis using False by simp
  qed
  have k: "?c mod 256 < 256" by simp
  from eq assms(2,3) show ?thesis
    unfolding red[OF k assms(2)] red[OF k assms(3)]
    by (auto split: if_splits)
qed

lemma find_fresh_exists:
  assumes "finite used" and "card used < 99"
  shows "\<exists>g. find_fresh idx used [1..<100] = Some g \<and> g \<notin> used"
proof (cases "find_fresh idx used [1..<100]")
  case None
  from find_fresh_None[OF this] have sub: "bump_name idx ` {1..<100} \<subseteq> used"
    by (simp only: set_upt)
  have "inj_on (bump_name idx) {1..<100}"
    by (rule inj_onI) (rule bump_name_inj, auto)
  then have "card (bump_name idx ` {1..<100}) = card {1..<100::nat}"
    by (rule card_image)
  then have "card (bump_name idx ` {1..<100}) = 99"
    by simp
  moreover have "card (bump_name idx ` {1..<100}) \<le> card used"
    using sub assms(1) by (rule card_mono[rotated])
  ultimately show ?thesis using assms(2) by simp
next
  case (Some g)
  then have "g \<notin> used" by (rule find_fresh_Some[THEN conjunct1])
  then show ?thesis using Some by simp
qed

lemma bump_name_types [simp]: "types (bump_name idx i) = types idx"
  by (simp add: bump_name_def)


lemma card_ran_le_dom:
  assumes "finite (dom m)"
  shows "finite (ran m)" and "card (ran m) \<le> card (dom m)"
proof -
  have r: "ran m = (\<lambda>k. the (m k)) ` dom m"
    by (auto simp: ran_def dom_def image_iff) force
  show "finite (ran m)" using assms r by simp
  show "card (ran m) \<le> card (dom m)" unfolding r using assms by (rule card_image_le)
qed

lemma rename_loop_ok:
  assumes U: "finite U" and rep: "rep \<subseteq> U" and names: "\<forall>w \<in> rep. name w \<noteq> []"
    and small: "card U + card rep \<le> 99"
  shows "distinct js \<Longrightarrow> set js \<inter> dom mp = {} \<Longrightarrow> dom mp \<subseteq> rep \<Longrightarrow> used = U \<union> ran mp \<Longrightarrow>
     inj_on mp (dom mp) \<Longrightarrow> ran mp \<inter> U = {} \<Longrightarrow>
     \<exists>used' mp'. rename_loop js rep (used, mp) = Inr (used', mp') \<and>
        dom mp' = dom mp \<union> (set js \<inter> rep) \<and> inj_on mp' (dom mp') \<and> ran mp' \<inter> U = {}"
proof (induction js arbitrary: used mp)
  case Nil
  then show ?case by simp
next
  case (Cons idx js)
  have finrep: "finite rep" using U rep by (rule rev_finite_subset)
  show ?case
  proof (cases "idx \<in> rep")
    case False
    have "set js \<inter> dom mp = {}" using Cons.prems(2) by auto
    from Cons.IH[OF _ this Cons.prems(3,4,5,6)] Cons.prems(1)
    obtain used' mp' where r: "rename_loop js rep (used, mp) = Inr (used', mp')"
      "dom mp' = dom mp \<union> (set js \<inter> rep)" "inj_on mp' (dom mp')" "ran mp' \<inter> U = {}"
      by auto
    have "dom mp' = dom mp \<union> (set (idx # js) \<inter> rep)" using r(2) False by auto
    then show ?thesis using r False by simp
  next
    case True
    then have nm: "name idx \<noteq> []" using names by blast
    have nd: "idx \<notin> dom mp" using Cons.prems(2) by auto
    have findom: "finite (dom mp)" using Cons.prems(3) finrep by (rule finite_subset)
    have "dom mp \<subset> rep" using Cons.prems(3) True nd by auto
    then have c1: "card (dom mp) < card rep" using finrep by (rule psubset_card_mono[rotated])
    have finused: "finite used" using Cons.prems(4) U card_ran_le_dom(1)[OF findom] by simp
    have "card used \<le> card U + card (ran mp)"
      unfolding Cons.prems(4) by (rule card_Un_le)
    also have "\<dots> \<le> card U + card (dom mp)"
      using card_ran_le_dom(2)[OF findom] by simp
    finally have "card used < 99" using c1 small by simp
    from find_fresh_exists[OF finused this, of idx] obtain g where g:
      "find_fresh idx used [1..<100] = Some g" "g \<notin> used" by blast
    have gU: "g \<notin> U" and gr: "g \<notin> ran mp" using g(2) Cons.prems(4) by auto
    let ?mp = "mp(idx \<mapsto> g)"
    have mpN: "mp idx = None" using nd by (simp add: domIff)
    have ran': "ran ?mp = insert g (ran mp)" using mpN by simp
    have p1: "distinct js" using Cons.prems(1) by simp
    have p2: "set js \<inter> dom ?mp = {}" using Cons.prems(1,2) by auto
    have p3: "dom ?mp \<subseteq> rep" using Cons.prems(3) True by auto
    have p4: "insert g used = U \<union> ran ?mp" using Cons.prems(4) ran' by auto
    have p5: "inj_on ?mp (dom ?mp)"
    proof (rule inj_onI)
      fix x y assume x: "x \<in> dom ?mp" and y: "y \<in> dom ?mp" and e: "?mp x = ?mp y"
      show "x = y"
      proof (cases "x = idx")
        case xi: True
        show ?thesis
        proof (rule ccontr)
          assume "x \<noteq> y"
          then have "mp y = Some g" using e xi by (simp split: if_splits)
          then have "g \<in> ran mp" by (rule ranI)
          then show False using gr by simp
        qed
      next
        case xn: False
        show ?thesis
        proof (cases "y = idx")
          case True
          then have "mp x = Some g" using e xn by (simp split: if_splits)
          then have "g \<in> ran mp" by (rule ranI)
          then show ?thesis using gr by simp
        next
          case False
          then have "mp x = mp y" "x \<in> dom mp" "y \<in> dom mp" using e xn x y by auto
          then show ?thesis using Cons.prems(5) by (meson inj_onD)
        qed
      qed
    qed
    have p6: "ran ?mp \<inter> U = {}" using ran' gU Cons.prems(6) by auto
    from Cons.IH[OF p1 p2 p3 p4 p5 p6]
    obtain used' mp' where r: "rename_loop js rep (insert g used, ?mp) = Inr (used', mp')"
      "dom mp' = dom ?mp \<union> (set js \<inter> rep)" "inj_on mp' (dom mp')" "ran mp' \<inter> U = {}"
      by blast
    have "dom mp' = dom mp \<union> (set (idx # js) \<inter> rep)" using r(2) True by auto
    moreover have "rename_loop (idx # js) rep (used, mp) = Inr (used', mp')"
      using True nm g(1) r(1) by simp
    ultimately show ?thesis using r(3,4) by blast
  qed
qed

lemma finite_used_indices: "finite (used_indices x)"
  by (simp add: used_indices_def)

lemma rename_a_cases:
  assumes "dom mp = xa \<union> xb"
  shows "(w \<in> xa \<and> w \<notin> xc \<and> mp w = Some (rename_a mp xa xc w)) \<or>
         (\<not> (w \<in> xa \<and> w \<notin> xc) \<and> rename_a mp xa xc w = w)"
proof (cases "mp w")
  case None
  then have "w \<notin> xa" using assms by (auto simp: domIff)
  then show ?thesis using None by (simp add: rename_a_def)
next
  case (Some g)
  then show ?thesis by (simp add: rename_a_def)
qed

lemma rename_b_cases:
  assumes "dom mp = xa \<union> xb"
  shows "(w \<in> xb \<and> mp w = Some (rename_b mp xb w)) \<or> (w \<notin> xb \<and> rename_b mp xb w = w)"
proof (cases "mp w")
  case None
  then have "w \<notin> xb" using assms by (auto simp: domIff)
  then show ?thesis using None by (simp add: rename_b_def)
next
  case (Some g)
  then show ?thesis by (simp add: rename_b_def)
qed

text \<open>
  Claim C2, as amended: for every pair of WickStrings \<open>a\<close> and \<open>b\<close> whose contraction
  indices all occur in their own tensors, whose colliding indices have non-empty names,
  and that are small enough for the search of at most 99 candidate names to succeed
  (the number of distinct indices used plus the number of colliding ones is at most
  99), the product \<open>c = a * b\<close> has factor \<open>a.factor * b.factor\<close>, its tensors are
  those of \<open>a\<close> followed by those of \<open>b\<close> with the indices renamed by \<open>ra\<close> and \<open>rb\<close>,
  which are injective on the indices used and leave free indices unchanged, and after
  the renaming no contraction index of one operand coincides with an index used by the
  other operand.
\<close>

theorem string_mul_renames:
  fixes a b :: "('f::times) WickString"
  assumes names: "\<forall>w \<in> (ctr_indices a \<inter> used_indices b) \<union> (ctr_indices b \<inter> used_indices a).
                    name w \<noteq> []"
    and small: "card (used_indices a \<union> used_indices b) +
                card ((ctr_indices a \<inter> used_indices b) \<union> (ctr_indices b \<inter> used_indices a)) \<le> 99"
    and ca: "ctr_indices a \<subseteq> used_indices a" and cb: "ctr_indices b \<subseteq> used_indices b"
  shows "\<exists>c ra rb. string_mul a b = Inr c \<and> factor c = factor a * factor b \<and>
      tensors c = map (map_indices ra) (tensors a) @ map (map_indices rb) (tensors b) \<and>
      ctr_indices c = ra ` ctr_indices a \<union> rb ` ctr_indices b \<and>
      (\<forall>w. w \<notin> ctr_indices a \<longrightarrow> ra w = w) \<and> (\<forall>w. w \<notin> ctr_indices b \<longrightarrow> rb w = w) \<and>
      inj_on ra (used_indices a) \<and> inj_on rb (used_indices b) \<and>
      ra ` ctr_indices a \<inter> rb ` used_indices b = {} \<and>
      rb ` ctr_indices b \<inter> ra ` used_indices a = {}"
proof -
  let ?A = "used_indices a" and ?B = "used_indices b"
  let ?U = "?A \<union> ?B"
  let ?xa = "ctr_indices a \<inter> ?B" and ?xb = "ctr_indices b \<inter> ?A"
  let ?xc = "ctr_indices a \<inter> ctr_indices b"
  have finU: "finite ?U" by (simp add: finite_used_indices)
  have rep: "?xa \<union> ?xb \<subseteq> ?U" by auto
  have d: "distinct (sorted_list_of_set ?U)" by simp
  have s: "set (sorted_list_of_set ?U) = ?U" using finU by simp
  have "\<exists>used' mp'. rename_loop (sorted_list_of_set ?U) (?xa \<union> ?xb) (?U, Map.empty) = Inr (used', mp') \<and>
        dom mp' = dom (Map.empty :: WickIndex \<rightharpoonup> WickIndex) \<union> (set (sorted_list_of_set ?U) \<inter> (?xa \<union> ?xb)) \<and>
        inj_on mp' (dom mp') \<and> ran mp' \<inter> ?U = {}"
    by (rule rename_loop_ok[OF finU rep names small d]) simp_all
  then obtain used' mp where loop:
    "rename_loop (sorted_list_of_set ?U) (?xa \<union> ?xb) (?U, Map.empty) = Inr (used', mp)"
    and dom0: "dom mp = dom (Map.empty :: WickIndex \<rightharpoonup> WickIndex) \<union> (set (sorted_list_of_set ?U) \<inter> (?xa \<union> ?xb))"
    and inj: "inj_on mp (dom mp)" and ran: "ran mp \<inter> ?U = {}"
    by blast
  have "?U \<inter> (?xa \<union> ?xb) = ?xa \<union> ?xb" by blast
  then have dom: "dom mp = ?xa \<union> ?xb" using dom0 s by simp
  define ra where "ra = rename_a mp ?xa ?xc"
  define rb where "rb = rename_b mp ?xb"
  have racases: "(w \<in> ?xa \<and> w \<notin> ?xc \<and> mp w = Some (ra w)) \<or> (\<not> (w \<in> ?xa \<and> w \<notin> ?xc) \<and> ra w = w)" for w
    unfolding ra_def by (rule rename_a_cases[OF dom])
  have rbcases: "(w \<in> ?xb \<and> mp w = Some (rb w)) \<or> (w \<notin> ?xb \<and> rb w = w)" for w
    unfolding rb_def by (rule rename_b_cases[OF dom])
  have fresh: "g \<notin> ?U" if "mp w = Some g" for w g
  proof -
    from that have "g \<in> ran mp" by (rule ranI)
    then show ?thesis using ran by blast
  qed
  have mpinj: "w = w'" if "mp w = Some g" "mp w' = Some g" for w w' g
  proof -
    from that have "w \<in> dom mp" "w' \<in> dom mp" "mp w = mp w'" by auto
    then show ?thesis using inj by (meson inj_onD)
  qed
  have res: "string_mul a b =
      Inr \<lparr>tensors = map (map_indices ra) (tensors a) @ map (map_indices rb) (tensors b),
           ctr_indices = ra ` ctr_indices a \<union> rb ` ctr_indices b,
           factor = factor a * factor b\<rparr>"
    using loop by (simp add: string_mul_def Let_def bindE_def ra_def rb_def)
  have fa: "\<forall>w. w \<notin> ctr_indices a \<longrightarrow> ra w = w"
    using racases by blast
  have fb: "\<forall>w. w \<notin> ctr_indices b \<longrightarrow> rb w = w"
    using rbcases by blast
  have inA: "w \<in> ?U" if "w \<in> ?A" for w using that by simp
  have inB: "w \<in> ?U" if "w \<in> ?B" for w using that by simp
  have ia: "inj_on ra ?A"
  proof (rule inj_onI)
    fix x y assume x: "x \<in> ?A" and y: "y \<in> ?A" and e: "ra x = ra y"
    from racases[of x] racases[of y] show "x = y"
    proof (elim disjE conjE)
      assume "mp x = Some (ra x)" "mp y = Some (ra y)"
      then show ?thesis using e mpinj by metis
    next
      assume h: "mp x = Some (ra x)" "ra y = y"
      have "ra x \<notin> ?U" using h(1) by (rule fresh)
      moreover have "ra x \<in> ?U" using h(2) e inA[OF y] by metis
      ultimately show ?thesis by contradiction
    next
      assume h: "ra x = x" "mp y = Some (ra y)"
      have "ra y \<notin> ?U" using h(2) by (rule fresh)
      moreover have "ra y \<in> ?U" using h(1) e inA[OF x] by metis
      ultimately show ?thesis by contradiction
    next
      assume "ra x = x" "ra y = y"
      then show ?thesis using e by metis
    qed
  qed
  have ib: "inj_on rb ?B"
  proof (rule inj_onI)
    fix x y assume x: "x \<in> ?B" and y: "y \<in> ?B" and e: "rb x = rb y"
    from rbcases[of x] rbcases[of y] show "x = y"
    proof (elim disjE conjE)
      assume "mp x = Some (rb x)" "mp y = Some (rb y)"
      then show ?thesis using e mpinj by metis
    next
      assume h: "mp x = Some (rb x)" "rb y = y"
      have "rb x \<notin> ?U" using h(1) by (rule fresh)
      moreover have "rb x \<in> ?U" using h(2) e inB[OF y] by metis
      ultimately show ?thesis by contradiction
    next
      assume h: "rb x = x" "mp y = Some (rb y)"
      have "rb y \<notin> ?U" using h(2) by (rule fresh)
      moreover have "rb y \<in> ?U" using h(1) e inB[OF x] by metis
      ultimately show ?thesis by contradiction
    next
      assume "rb x = x" "rb y = y"
      then show ?thesis using e by metis
    qed
  qed
  have d1: "ra ` ctr_indices a \<inter> rb ` ?B = {}"
  proof (rule ccontr)
    assume "ra ` ctr_indices a \<inter> rb ` ?B \<noteq> {}"
    then obtain i u where i: "i \<in> ctr_indices a" and u: "u \<in> ?B" and e: "ra i = rb u"
      by auto
    have iA: "i \<in> ?A" using i ca by blast
    from racases[of i] show False
    proof (elim disjE conjE)
      assume r: "i \<in> ?xa" "i \<notin> ?xc" "mp i = Some (ra i)"
      from rbcases[of u] show False
      proof (elim disjE conjE)
        assume q: "u \<in> ?xb" "mp u = Some (rb u)"
        have "mp u = Some (ra i)" using q(2) e by metis
        then have "u = i" using r(3) by (rule mpinj)
        then have "i \<in> ctr_indices b" using q(1) by blast
        then show False using r(2) i by blast
      next
        assume q: "rb u = u"
        have "ra i \<notin> ?U" using r(3) by (rule fresh)
        moreover have "ra i \<in> ?U" using q e inB[OF u] by metis
        ultimately show False by contradiction
      qed
    next
      assume r: "\<not> (i \<in> ?xa \<and> i \<notin> ?xc)" "ra i = i"
      from rbcases[of u] show False
      proof (elim disjE conjE)
        assume q: "mp u = Some (rb u)"
        have "rb u \<notin> ?U" using q by (rule fresh)
        moreover have "rb u \<in> ?U" using r(2) e inA[OF iA] by metis
        ultimately show False by contradiction
      next
        assume ub: "u \<notin> ?xb" "rb u = u"
        have ui: "u = i" using e r(2) ub(2) by metis
        then have "i \<in> ?xa" using i u by blast
        then have "i \<in> ?xc" using r(1) by blast
        then have "i \<in> ?xb" using iA by blast
        then show False using ub(1) ui by blast
      qed
    qed
  qed
  have d2: "rb ` ctr_indices b \<inter> ra ` ?A = {}"
  proof (rule ccontr)
    assume "rb ` ctr_indices b \<inter> ra ` ?A \<noteq> {}"
    then obtain i u where i: "i \<in> ctr_indices b" and u: "u \<in> ?A" and e: "rb i = ra u"
      by auto
    have iB: "i \<in> ?B" using i cb by blast
    from rbcases[of i] show False
    proof (elim disjE conjE)
      assume r: "i \<in> ?xb" "mp i = Some (rb i)"
      from racases[of u] show False
      proof (elim disjE conjE)
        assume q: "u \<in> ?xa" "u \<notin> ?xc" "mp u = Some (ra u)"
        have "mp u = Some (rb i)" using q(3) e by metis
        then have "u = i" using r(2) by (rule mpinj)
        then show False using q(1,2) i by blast
      next
        assume q: "ra u = u"
        have "rb i \<notin> ?U" using r(2) by (rule fresh)
        moreover have "rb i \<in> ?U" using q e inA[OF u] by metis
        ultimately show False by contradiction
      qed
    next
      assume r: "i \<notin> ?xb" "rb i = i"
      from racases[of u] show False
      proof (elim disjE conjE)
        assume q: "mp u = Some (ra u)"
        have "ra u \<notin> ?U" using q by (rule fresh)
        moreover have "ra u \<in> ?U" using r(2) e inB[OF iB] by metis
        ultimately show False by contradiction
      next
        assume q: "ra u = u"
        have "u = i" using e r(2) q by metis
        then show False using r(1) i u by blast
      qed
    qed
  qed
  show ?thesis
    using res fa fb ia ib d1 d2
    by (intro exI[of _ "\<lparr>tensors = map (map_indices ra) (tensors a) @ map (map_indices rb) (tensors b),
           ctr_indices = ra ` ctr_indices a \<union> rb ` ctr_indices b,
           factor = factor a * factor b\<rparr>"] exI[of _ ra] exI[of _ rb]) simp
qed

text \<open>
  Claim C2 as stated fails when the search for a fresh name runs out: with \<open>a\<close> the
  term \<open>SUM <a> T[a]\<close> and \<open>b\<close> a tensor over the 100 one-byte index names with bytes
  97 (\<open>a\<close>) to 196, all 99 candidates \<open>a + 1, ..., a + 99\<close> are in use, nothing is
  renamed, and the summed index \<open>a\<close> of the first operand coincides with the free index
  \<open>a\<close> of the second.
\<close>

theorem string_mul_counterexample:
  "string_mul
     \<lparr>tensors = [\<lparr>tname = ''T'', indices = [WickIndex ''a'' None_t],
                  perms = [\<lparr>data = [0], negative = False\<rparr>], ttype = Tensor\<rparr>],
      ctr_indices = {WickIndex ''a'' None_t}, factor = (1 :: real)\<rparr>
     \<lparr>tensors = [\<lparr>tname = ''U'', indices = map (\<lambda>k. WickIndex [char_of k] None_t) [97..<197::nat],
                  perms = [\<lparr>data = map int [0..<100], negative = False\<rparr>], ttype = Tensor\<rparr>],
      ctr_indices = {}, factor = 1\<rparr> =
   Inr \<lparr>tensors = [\<lparr>tname = ''T'', indices = [WickIndex ''a'' None_t],
                     perms = [\<lparr>data = [0], negative = False\<rparr>], ttype = Tensor\<rparr>,
                    \<lparr>tname = ''U'', indices = map (\<lambda>k. WickIndex [char_of k] None_t) [97..<197::nat],
                     perms = [\<lparr>data = map int [0..<100], negative = False\<rparr>], ttype = Tensor\<rparr>],
        ctr_indices = {WickIndex ''a'' None_t}, factor = 1\<rparr>"
  by code_simp

lemma string_mul_example:
  "string_mul
     \<lparr>tensors = [\<lparr>tname = ''T'', indices = [WickIndex ''a'' None_t, WickIndex ''b'' None_t],
                  perms = [\<lparr>data = [0, 1], negative = False\<rparr>], ttype = Tensor\<rparr>],
      ctr_indices = {WickIndex ''a'' None_t}, factor = (2 :: real)\<rparr>
     \<lparr>tensors = [\<lparr>tname = ''U'', indices = [WickIndex ''a'' None_t, WickIndex ''b'' None_t, WickIndex ''c'' None_t],
                  perms = [\<lparr>data = [0, 1, 2], negative = False\<rparr>], ttype = Tensor\<rparr>],
      ctr_indices = {WickIndex ''a'' None_t, WickIndex ''c'' None_t}, factor = 3\<rparr> =
   Inr \<lparr>tensors = [\<lparr>tname = ''T'', indices = [WickIndex ''a'' None_t, WickIndex ''b'' None_t],
                     perms = [\<lparr>data = [0, 1], negative = False\<rparr>], ttype = Tensor\<rparr>,
                    \<lparr>tname = ''U'', indices = [WickIndex ''d'' None_t, WickIndex ''b'' None_t, WickIndex ''c'' None_t],
                     perms = [\<lparr>data = [0, 1, 2], negative = False\<rparr>], ttype = Tensor\<rparr>],
        ctr_indices = {WickIndex ''a'' None_t, WickIndex ''d'' None_t, WickIndex ''c'' None_t},
        factor = 6\<rparr>"
  by code_simp

theorem string_mul_renames_witness:
  "string_mul
     \<lparr>tensors = [\<lparr>tname = ''T'', indices = [WickIndex ''a'' None_t, WickIndex ''b'' None_t],
                  perms = [\<lparr>data = [0, 1], negative = False\<rparr>], ttype = Tensor\<rparr>],
      ctr_indices = {WickIndex ''a'' None_t}, factor = (2 :: real)\<rparr>
     \<lparr>tensors = [\<lparr>tname = ''U'', indices = [WickIndex ''a'' None_t, WickIndex ''b'' None_t, WickIndex ''c'' None_t],
                  perms = [\<lparr>data = [0, 1, 2], negative = False\<rparr>], ttype = Tensor\<rparr>],
      ctr_indices = {WickIndex ''a'' None_t, WickIndex ''c'' None_t}, factor = 3\<rparr> =
   Inr \<lparr>tensors = [\<lparr>tname = ''T'', indices = [WickIndex ''a'' None_t, WickIndex ''b'' None_t],
                     perms = [\<lparr>data = [0, 1], negative = False\<rparr>], ttype = Tensor\<rparr>,
                    \<lparr>tname = ''U'', indices = [WickIndex ''d'' None_t, WickIndex ''b'' None_t, WickIndex ''c'' None_t],
                     perms = [\<lparr>data = [0, 1, 2], negative = False\<rparr>], ttype = Tensor\<rparr>],
        ctr_indices = {WickIndex ''a'' None_t, WickIndex ''d'' None_t, WickIndex ''c'' None_t},
        factor = 6\<rparr>"
proof -
  let ?a = "\<lparr>tensors = [\<lparr>tname = ''T'', indices = [WickIndex ''a'' None_t, WickIndex ''b'' None_t],
                  perms = [\<lparr>data = [0, 1], negative = False\<rparr>], ttype = Tensor\<rparr>],
      ctr_indices = {WickIndex ''a'' None_t}, factor = (2 :: real)\<rparr>"
  let ?b = "\<lparr>tensors = [\<lparr>tname = ''U'', indices = [WickIndex ''a'' None_t, WickIndex ''b'' None_t, WickIndex ''c'' None_t],
                  perms = [\<lparr>data = [0, 1, 2], negative = False\<rparr>], ttype = Tensor\<rparr>],
      ctr_indices = {WickIndex ''a'' None_t, WickIndex ''c'' None_t}, factor = (3 :: real)\<rparr>"
  have h1: "\<forall>w \<in> (ctr_indices ?a \<inter> used_indices ?b) \<union> (ctr_indices ?b \<inter> used_indices ?a).
               name w \<noteq> []"
    by code_simp
  have h2: "card (used_indices ?a \<union> used_indices ?b) +
            card ((ctr_indices ?a \<inter> used_indices ?b) \<union> (ctr_indices ?b \<inter> used_indices ?a)) \<le> 99"
    by code_simp
  have h3: "ctr_indices ?a \<subseteq> used_indices ?a" by code_simp
  have h4: "ctr_indices ?b \<subseteq> used_indices ?b" by code_simp
  have "\<exists>c. string_mul ?a ?b = Inr c \<and> factor c = factor ?a * factor ?b"
    using string_mul_renames[OF h1 h2 h3 h4] by (elim exE conjE) (rule exI, erule conjI, assumption)
  then show ?thesis using string_mul_example by simp
qed

section \<open>Tensor order and tensor constructors\<close>

text \<open>
  \<open>WickTensor::fermi_type\<close> and \<open>WickTensor::operator<\<close>. The type masks are compared
  as unsigned bytes, the tensor types by their enum values.
\<close>

definition fermi_type :: "WickTensor \<Rightarrow> WickIndexTypes \<Rightarrow> int" where
  "fermi_type t occ_type =
     (let x = (if ttype t = DestroyOperator then 1 else 0);
          y = (if indices t \<noteq> [] \<and> types (indices t ! 0) AND occ_type \<noteq> None_t then 1 else 0)
      in x OR push_bit 1 (x XOR y))"

definition tensor_less :: "WickTensor \<Rightarrow> WickTensor \<Rightarrow> bool" where
  "tensor_less t other =
     (let msk = Inactive OR Active OR External;
          x_type = (if indices t = [] then None_t else types (indices t ! 0) AND msk);
          y_type = (if indices other = [] then None_t else types (indices other ! 0) AND msk);
          occ_min = min x_type y_type;
          max_type = max x_type y_type;
          occ_type = (if occ_min = None_t \<or> occ_min = External \<or>
                         (occ_min = Active \<and> max_type = Active)
                      then Inactive else occ_min)
      in if fermi_type t occ_type \<noteq> fermi_type other occ_type
         then fermi_type t occ_type < fermi_type other occ_type
         else if tname t \<noteq> tname other then tname t < tname other
         else if ttype t = ttype other then indices t < indices other
         else tensor_type_code (ttype t) < tensor_type_code (ttype other))"

definition non_symmetric :: "WickPermutation list" where
  "non_symmetric = []"

definition two_symmetric :: "WickPermutation list" where
  "two_symmetric = [\<lparr>data = [1, 0], negative = False\<rparr>]"

text \<open>
  \<open>WickPermutation::pair_symmetric(n, hermitian)\<close>. For \<open>n = 0\<close> the source constructs a
  vector of \<open>n - 1\<close> elements, which throws \<open>std::length_error\<close>.
\<close>

definition pair_swap :: "nat \<Rightarrow> nat \<Rightarrow> int list" where
  "pair_swap n i =
     map (\<lambda>j. to_int16 (int (if j = 0 then i else if j = i then 0 else j))) [0..<n] @
     map (\<lambda>j. to_int16 (int (if j = 0 then i + n else if j = i then n else j + n))) [0..<n]"

definition pair_symmetric :: "nat \<Rightarrow> bool \<Rightarrow> error + WickPermutation list" where
  "pair_symmetric n hermitian =
     (if n = 0 then Inl LengthError
      else Inr (map (\<lambda>i. \<lparr>data = pair_swap n i, negative = False\<rparr>) [1..<n] @
                (if hermitian
                 then [\<lparr>data = map (\<lambda>j. to_int16 (int (j + n))) [0..<n] @
                                map (\<lambda>j. to_int16 (int j)) [0..<n],
                         negative = False\<rparr>]
                 else [])))"

text \<open>The decimal digits of a number, as \<open>stringstream << k\<close> prints them.\<close>

fun dec_digits :: "nat \<Rightarrow> nat \<Rightarrow> string" where
  "dec_digits 0 k = []"
| "dec_digits (Suc fuel) k =
     (if k < 10 then [char_of (48 + k)]
      else dec_digits fuel (k div 10) @ [char_of (48 + k mod 10)])"

definition dec_string :: "nat \<Rightarrow> string" where
  "dec_string k = dec_digits (Suc k) k"

definition kronecker_delta :: "WickIndex list \<Rightarrow> error + WickTensor" where
  "kronecker_delta idx =
     (if length idx \<noteq> 2 then Inl AssertDeltaArity
      else WickTensor_new ''delta'' idx two_symmetric KroneckerDelta)"

definition spin_free :: "WickIndex list \<Rightarrow> error + WickTensor" where
  "spin_free idx =
     (if length idx mod 2 \<noteq> 0 then Inl AssertSpinFreeArity
      else bindE (pair_symmetric (length idx div 2) False) (\<lambda>ps.
             WickTensor_new (''E'' @ dec_string (length idx div 2)) idx ps SpinFreeOperator))"

definition cre :: "WickIndex \<Rightarrow> error + WickTensor" where
  "cre index = WickTensor_new ''C'' [index] non_symmetric CreationOperator"

definition des :: "WickIndex \<Rightarrow> error + WickTensor" where
  "des index = WickTensor_new ''D'' [index] non_symmetric DestroyOperator"

text \<open>The default constructor \<open>WickTensor()\<close>, which \<open>vector::resize\<close> fills in.\<close>

definition WickTensor_default :: WickTensor where
  "WickTensor_default = \<lparr>tname = [], indices = [], perms = [], ttype = Tensor\<rparr>"

section \<open>WickExpr and normal ordering\<close>

record 'f WickExpr =
  terms :: "'f WickString list"

subsection \<open>split_index_types\<close>

definition check_mask :: WickIndexTypes where
  "check_mask = Inactive OR Active OR External"

text \<open>
  One test of the loop over \<open>check_types\<close> for the contraction index at position \<open>i\<close>;
  \<open>nk\<close> is the number of index lists at the start of the loop over \<open>check_types\<close>.
\<close>

definition set_type_at :: "nat \<Rightarrow> WickIndexTypes \<Rightarrow> WickIndex list \<Rightarrow> WickIndex list" where
  "set_type_at i c ws =
     ws[i := WickIndex (name (ws ! i)) ((types (ws ! i) AND NOT check_mask) OR c)]"

definition split_step :: "WickIndex list \<Rightarrow> nat \<Rightarrow> nat \<Rightarrow> WickIndexTypes
    \<Rightarrow> nat \<times> WickIndex list list \<Rightarrow> nat \<times> WickIndex list list" where
  "split_step vidxs i nk c s =
     (let k = fst s; xs = snd s in
      if types (vidxs ! i) AND c \<noteq> None_t \<and> types (vidxs ! i) AND check_mask \<noteq> c
      then (let xs1 = (if k \<noteq> 0 then xs @ take nk xs else xs);
                xs2 = foldl (\<lambda>ys l. ys[k * nk + l := set_type_at i c (ys ! (k * nk + l))]) xs1 [0..<nk]
            in (k + 1, xs2))
      else (k, xs))"

definition split_index :: "WickIndex list \<Rightarrow> WickIndex list list \<Rightarrow> nat \<Rightarrow> WickIndex list list" where
  "split_index vidxs xs i =
     snd (foldl (\<lambda>s c. split_step vidxs i (length xs) c s) (0, xs) [Inactive, Active, External])"

text \<open>
  The replacement of the indices of one tensor by the typed contraction indices: the
  inner loop over \<open>xctr_idxs[i]\<close> compares with the index as already replaced.
\<close>

definition retype_index :: "WickIndex list \<Rightarrow> WickIndex \<Rightarrow> WickIndex" where
  "retype_index ws wi =
     foldl (\<lambda>w wii. if with_no_types w = with_no_types wii \<and> types w AND types wii \<noteq> None_t
                     then wii else w) wi ws"

definition split_term :: "('f::zero) WickString \<Rightarrow> WickIndex list \<Rightarrow> 'f WickString list" where
  "split_term x ws =
     (let ts = map (map_indices (retype_index ws)) (tensors x);
          fac = (if list_ex (\<lambda>wt. perms wt = []) ts then 0 else factor x)
      in if fac = 0 then []
         else [\<lparr>tensors = ts, ctr_indices = set ws, factor = fac\<rparr>])"

definition split_index_types_string :: "('f::zero) WickString \<Rightarrow> 'f WickExpr" where
  "split_index_types_string x =
     (let vidxs = sorted_list_of_set (ctr_indices x);
          xctr_idxs = foldl (split_index vidxs) [vidxs] [0..<length vidxs]
      in \<lparr>terms = concat (map (split_term x) xctr_idxs)\<rparr>)"

definition split_index_types :: "('f::zero) WickExpr \<Rightarrow> 'f WickExpr" where
  "split_index_types e = \<lparr>terms = concat (map (\<lambda>t. terms (split_index_types_string t)) (terms e))\<rparr>"

subsection \<open>normal_order_impl_new\<close>

text \<open>
  \<open>std::stable_sort\<close> with a comparator, as a stable insertion sort. The C++ standard
  fixes the result of \<open>std::stable_sort\<close> only for a comparator that is a strict weak
  ordering on the elements; there every stable sort gives this list. Where the
  comparator is not one (\<open>WickTensor::operator<\<close> is not transitive on some mixtures of
  typed operators) the order that the library's merge steps produce is not fixed by
  the standard and may differ from this one.
\<close>

fun stable_insert :: "('a \<Rightarrow> 'a \<Rightarrow> bool) \<Rightarrow> 'a \<Rightarrow> 'a list \<Rightarrow> 'a list" where
  "stable_insert lt x [] = [x]"
| "stable_insert lt x (y # ys) = (if lt x y then x # y # ys else y # stable_insert lt x ys)"

definition stable_sort :: "('a \<Rightarrow> 'a \<Rightarrow> bool) \<Rightarrow> 'a list \<Rightarrow> 'a list" where
  "stable_sort lt xs = foldl (\<lambda>acc x. stable_insert lt x acc) [] xs"

definition is_cd :: "WickTensor \<Rightarrow> bool" where
  "is_cd wt = (ttype wt = CreationOperator \<or> ttype wt = DestroyOperator)"

definition cd_type :: "'f WickString \<Rightarrow> bool" where
  "cd_type x = list_ex is_cd (tensors x)"

definition sf_type :: "'f WickString \<Rightarrow> bool" where
  "sf_type x = list_ex (\<lambda>wt. ttype wt = SpinFreeOperator) (tensors x)"

text \<open>The sign \<open>((n - 1) & 1) ^ (((n - 1) & 2) >> 1)\<close> of reversing \<open>n\<close> destroy operators.\<close>

definition reverse_sign :: "int \<Rightarrow> int" where
  "reverse_sign n = ((n - 1) AND 1) XOR drop_bit 1 ((n - 1) AND 2)"

record prep =
  cd_tensors :: "WickTensor list"
  cd_idx_map :: "nat list"
  ot_init :: "WickTensor list"
  init_sign :: int

fun map_E :: "('a \<Rightarrow> error + 'b) \<Rightarrow> 'a list \<Rightarrow> error + 'b list" where
  "map_E f [] = Inr []"
| "map_E f (x # xs) = bindE (f x) (\<lambda>y. bindE (map_E f xs) (\<lambda>ys. Inr (y # ys)))"

fun expand_ops :: "WickTensor list \<Rightarrow> prep \<Rightarrow> error + prep" where
  "expand_ops [] p = Inr p"
| "expand_ops (wt # rest) p =
     (if is_cd wt then expand_ops rest (p\<lparr>cd_tensors := cd_tensors p @ [wt]\<rparr>)
      else if ttype wt = SpinFreeOperator then
        (let sf_n = length (indices wt) div 2; s0 = length (cd_idx_map p) in
         bindE (map_E cre (take sf_n (indices wt))) (\<lambda>cs.
         bindE (map_E des (take sf_n (drop sf_n (indices wt)))) (\<lambda>ds.
           expand_ops rest
             (p\<lparr>init_sign := init_sign p XOR reverse_sign (int sf_n),
                cd_tensors := cd_tensors p @ cs @ ds,
                cd_idx_map := cd_idx_map p @ map (\<lambda>i. s0 + i + sf_n) [0..<sf_n] @
                                             map (\<lambda>i. s0 + sf_n + i - sf_n) [0..<sf_n]\<rparr>))))
      else expand_ops rest (p\<lparr>ot_init := ot_init p @ [wt]\<rparr>))"

definition inactive_index :: "WickTensor \<Rightarrow> bool" where
  "inactive_index t = (types (indices t ! 0) AND Inactive \<noteq> None_t)"

text \<open>
  The candidate pairs whose first operator is \<open>i\<close>, and whether one of them is a pair of
  inactive indices (\<open>n_inactive_idxs[i] = 1\<close>).
\<close>

definition sf_pair :: "WickTensor list \<Rightarrow> nat \<Rightarrow> nat \<Rightarrow> bool \<times> bool" where
  "sf_pair cd i j =
     (let ti = inactive_index (cd ! i); tj = inactive_index (cd ! j) in
      if ti \<or> tj
      then (if tensor_type_code (ttype (cd ! i)) < tensor_type_code (ttype (cd ! j)) \<and> ti \<and> tj
            then (True, True) else (False, False))
      else (tensor_type_code (ttype (cd ! j)) < tensor_type_code (ttype (cd ! i)), False))"

definition pairs_from :: "bool \<Rightarrow> WickTensor list \<Rightarrow> nat \<Rightarrow> (nat \<times> nat) list" where
  "pairs_from sf cd i =
     (if sf then filter (\<lambda>p. fst (sf_pair cd (fst p) (snd p))) (map (\<lambda>j. (i, j)) [i + 1..<length cd])
      else filter (\<lambda>p. ttype (cd ! fst p) \<noteq> ttype (cd ! snd p) \<and> tensor_less (cd ! snd p) (cd ! fst p))
             (map (\<lambda>j. (i, j)) [i + 1..<length cd]))"

definition inactive_first :: "WickTensor list \<Rightarrow> nat \<Rightarrow> int" where
  "inactive_first cd i = (if list_ex (\<lambda>j. snd (sf_pair cd i j)) [i + 1..<length cd] then 1 else 0)"

text \<open>The data that the depth-first traversal only reads.\<close>

record 'f ctx =
  cx_cd :: "WickTensor list"
  cx_idx_map :: "nat list"
  cx_ot_count :: nat
  cx_sf :: bool
  cx_ctr_idxs :: "(nat \<times> nat) list"
  cx_ctr_cd_idxs :: "nat list"
  cx_n_inactive :: "int list"
  cx_tensor_idxs :: "nat list"
  cx_max_unctr :: int
  cx_no_ctr :: bool
  cx_ctr_indices :: "WickIndex set"
  cx_factor :: 'f

text \<open>The variables that the traversal changes and keeps from one pass to the next.\<close>

record 'f dfs_state =
  que :: "(int \<times> int) list"
  cur_idxs :: "(nat \<times> nat) list"
  acc_sign :: "int list"
  ot_tensors :: "WickTensor list"
  rev_idxs :: "nat list"
  final_sign :: int
  r_terms :: "'f WickString list"

definition resize :: "nat \<Rightarrow> 'a \<Rightarrow> 'a list \<Rightarrow> 'a list" where
  "resize n d xs = take n xs @ replicate (n - length xs) d"

text \<open>
  The loop that adds the crossing sign of the new pair \<open>(c, d)\<close> against the pairs chosen
  before; it stops after the pass that sets \<open>skip\<close>.
\<close>

fun cross_loop :: "(nat \<times> nat) list \<Rightarrow> nat \<Rightarrow> nat \<Rightarrow> bool \<times> bool list \<times> int
    \<Rightarrow> bool \<times> bool list \<times> int" where
  "cross_loop [] c d s = s"
| "cross_loop (ab # rest) c d s =
     (if fst s then s
      else cross_loop rest c d
             (fst ab = d \<or> snd ab = d \<or> snd ab = c,
              (fst (snd s))[fst ab := True, snd ab := True],
              snd (snd s) XOR of_bool ((fst ab < c \<and> snd ab > c \<and> snd ab < d) \<or>
                                       (fst ab > c \<and> fst ab < d \<and> snd ab > d))))"

text \<open>Removing the reordering sign of the contracted operators \<open>c\<close> and \<open>d\<close>.\<close>

definition reorder_sign :: "nat list \<Rightarrow> bool list \<Rightarrow> nat \<Rightarrow> nat \<Rightarrow> int \<Rightarrow> int" where
  "reorder_sign rv msk c d acc =
     foldl (\<lambda>s i. if \<not> msk ! i
                   then (s XOR of_bool (rv ! max c i < rv ! min c i))
                          XOR of_bool (rv ! max d i < rv ! min d i)
                   else s)
       (acc XOR of_bool (rv ! d < rv ! c)) [0..<length rv]"

text \<open>
  The bookkeeping of a pair \<open>(a, b)\<close> in the spin-free case, in two halves: the inactive
  masks and the count, then the factor and the partner map.
\<close>

record 'f inact_state =
  inactive_mask :: "int list"
  n_inact :: int
  inact_fac :: 'f
  idx_map_rev :: "nat list"

definition inact_mark :: "int list \<Rightarrow> nat \<Rightarrow> nat \<Rightarrow> 'f inact_state \<Rightarrow> 'f inact_state" where
  "inact_mark nin a b s =
     (let m1 = (inactive_mask s)[a := inactive_mask s ! a OR (nin ! a - nin ! (a + 1))];
          m2 = m1[b := m1 ! b OR (nin ! b - nin ! (b + 1))];
          m3 = m2[idx_map_rev s ! a := m2 ! (idx_map_rev s ! a) OR m2 ! a];
          m4 = m3[idx_map_rev s ! b := m3 ! (idx_map_rev s ! b) OR m3 ! b]
      in s\<lparr>inactive_mask := m4, n_inact := n_inact s + (nin ! a - nin ! (a + 1))\<rparr>)"

definition inact_link :: "nat \<Rightarrow> nat \<Rightarrow> ('f::{numeral,times}) inact_state \<Rightarrow> 'f inact_state" where
  "inact_link a b s =
     (let bit = of_bool (idx_map_rev s ! a = b) AND inactive_mask s ! a;
          r1 = (idx_map_rev s)[idx_map_rev s ! a := idx_map_rev s ! b];
          r2 = r1[r1 ! b := r1 ! a]
      in s\<lparr>inact_fac := inact_fac s * (if bit = 0 then 1 else 2), idx_map_rev := r2\<rparr>)"

definition inact_prev :: "int list \<Rightarrow> (nat \<times> nat) list \<Rightarrow> ('f::{numeral,times}) inact_state
    \<Rightarrow> 'f inact_state" where
  "inact_prev nin ps s = foldl (\<lambda>s ab. inact_link (fst ab) (snd ab) (inact_mark nin (fst ab) (snd ab) s)) s ps"

text \<open>\<open>size_t\<close> arithmetic: \<open>cd_tensors.size() - (l + l + 2) > max_unctr\<close> on 64-bit words.\<close>

definition unsigned_gt :: "int \<Rightarrow> int \<Rightarrow> bool" where
  "unsigned_gt a b = (a mod 2 ^ 64 > b mod 2 ^ 64)"

text \<open>The uncontracted operators of the spin-free case, written into \<open>rev_idxs\<close>.\<close>

definition sf_collect :: "'f ctx \<Rightarrow> bool list \<Rightarrow> nat list \<Rightarrow> nat \<Rightarrow> nat list \<Rightarrow> nat list" where
  "sf_collect cx msk map_rev tn rv =
     snd (foldl (\<lambda>s i. if \<not> msk ! (cx_tensor_idxs cx ! i) \<and>
                          ttype (cx_cd cx ! (cx_tensor_idxs cx ! i)) = CreationOperator
                       then (fst s + 1,
                             (snd s)[fst s := cx_tensor_idxs cx ! i,
                                     fst s + tn := map_rev ! (cx_tensor_idxs cx ! i)])
                       else s)
            (0, rv) [0..<length (cx_tensor_idxs cx)])"

definition inversions :: "nat list \<Rightarrow> nat \<Rightarrow> int \<Rightarrow> int" where
  "inversions rv m acc =
     foldl (\<lambda>s i. foldl (\<lambda>s j. s XOR of_bool (rv ! j < rv ! i)) s [i + 1..<m]) acc [0..<m]"

definition first_index :: "WickTensor \<Rightarrow> error + WickIndex" where
  "first_index t = (if indices t = [] then Inl OutOfRange else Inr (indices t ! 0))"

text \<open>Emitting the term of the current node of the traversal.\<close>

definition emit :: "('f::{numeral,times,uminus}) ctx \<Rightarrow> int \<Rightarrow> bool list \<Rightarrow> 'f inact_state
    \<Rightarrow> 'f dfs_state \<Rightarrow> error + 'f dfs_state" where
  "emit cx l msk ia st =
     (if cx_sf cx then
        (if n_inact ia < cx_n_inactive cx ! 0 then Inr st
         else
           (let sf_n = length (cx_cd cx) div 2;
                tn = nat (int sf_n - l - 1);
                rv = sf_collect cx msk (idx_map_rev ia) tn (rev_idxs st);
                fs = inversions rv (tn + tn) (reverse_sign (int tn))
            in bindE (map_E (\<lambda>i. first_index (cx_cd cx ! (rv ! i))) [0..<tn + tn]) (\<lambda>wis.
               bindE (if wis \<noteq> [] then bindE (spin_free wis) (\<lambda>t. Inr (ot_tensors st @ [t]))
                      else Inr (ot_tensors st)) (\<lambda>ots.
                 Inr (st\<lparr>rev_idxs := rv, final_sign := fs, ot_tensors := ots,
                         r_terms := r_terms st @
                           [\<lparr>tensors = ots, ctr_indices = cx_ctr_indices cx,
                             factor = inact_fac ia *
                               (if (acc_sign st ! nat (l + 2)) XOR fs \<noteq> 0
                                then - cx_factor cx else cx_factor cx)\<rparr>]\<rparr>)))))
      else
        (let ots = ot_tensors st @
               map (\<lambda>i. cx_cd cx ! i) (filter (\<lambda>i. \<not> msk ! i) (cx_tensor_idxs cx))
         in Inr (st\<lparr>ot_tensors := ots,
                    r_terms := r_terms st @
                      [\<lparr>tensors = ots, ctr_indices = cx_ctr_indices cx,
                        factor = inact_fac ia *
                          (if (acc_sign st ! nat (l + 2)) XOR final_sign st \<noteq> 0
                           then - cx_factor cx else cx_factor cx)\<rparr>]\<rparr>)))"

text \<open>Pushing the next contractions, the test against \<open>max_unctr\<close>, and the emission.\<close>

definition push_and_emit :: "('f::{numeral,times,uminus}) ctx \<Rightarrow> int \<Rightarrow> nat \<Rightarrow> bool list
    \<Rightarrow> 'f inact_state \<Rightarrow> 'f dfs_state \<Rightarrow> error + 'f dfs_state" where
  "push_and_emit cx l k msk ia st =
     (let st1 = (if \<not> cx_no_ctr cx
                 then st\<lparr>que := que st @ map (\<lambda>k'. (l + 1, int k')) [k..<length (cx_ctr_idxs cx)]\<rparr>
                 else st)
      in if cx_max_unctr cx \<noteq> - 1 \<and>
            unsigned_gt (int (length (cx_cd cx)) - (l + l + 2)) (cx_max_unctr cx)
         then Inr st1
         else emit cx l msk ia st1)"

text \<open>
  One pass of the loop \<open>while (!que.empty())\<close>. The vector \<open>acc_sign\<close> has
  \<open>cd_tensors.size() + 1\<close> elements, so \<open>acc_sign[l + 2]\<close> is outside of it when the string
  has no creation, destroy or spin-free operator at all (one element, \<open>l = -1\<close>): that
  write is the error \<open>OutOfRange\<close>.
\<close>

definition dfs_step :: "('f::{numeral,times,uminus}) ctx \<Rightarrow> 'f dfs_state \<Rightarrow> error + 'f dfs_state" where
  "dfs_step cx st =
     (let l = fst (last (que st)); j = snd (last (que st));
          n = length (cx_cd cx);
          st1 = st\<lparr>que := butlast (que st)\<rparr>;
          st2 = (if l \<noteq> - 1 then st1\<lparr>cur_idxs := (cur_idxs st1)[nat l := cx_ctr_idxs cx ! nat j]\<rparr>
                 else st1);
          k = (if l \<noteq> - 1 then cx_ctr_cd_idxs cx ! (fst (cx_ctr_idxs cx ! nat j) + 1) else 0);
          st3 = st2\<lparr>acc_sign := (acc_sign st2)[nat (l + 2) := acc_sign st2 ! nat (l + 1)],
                    ot_tensors := resize (cx_ot_count cx + nat (l + 1)) WickTensor_default (ot_tensors st2)\<rparr>;
          ia0 = \<lparr>inactive_mask = replicate n 0, n_inact = 0, inact_fac = 1,
                 idx_map_rev = cx_idx_map cx @ replicate (n - length (cx_idx_map cx)) 0\<rparr>
      in if length (acc_sign st2) \<le> nat (l + 2) then Inl OutOfRange
         else if l \<noteq> - 1 then
           (let c = fst (cur_idxs st3 ! nat l); d = snd (cur_idxs st3 ! nat l);
                acc0 = (acc_sign st3 ! nat (l + 2)) XOR ((((int c XOR int d) AND 1)) XOR 1);
                cr = cross_loop (take (nat l) (cur_idxs st3)) c d (False, replicate n False, acc0);
                st4 = st3\<lparr>acc_sign := (acc_sign st3)[nat (l + 2) := snd (snd cr)]\<rparr>
            in if fst cr then Inr st4
               else
                 (let msk = (fst (snd cr))[c := True, d := True] in
                  if cx_sf cx then
                    (let ia1 = inact_mark (cx_n_inactive cx) c d
                                 (inact_prev (cx_n_inactive cx) (take (nat l) (cur_idxs st4)) ia0)
                     in if n_inact ia1 + cx_n_inactive cx ! (c + 1) < cx_n_inactive cx ! 0
                        then Inr st4
                        else
                          bindE (first_index (cx_cd cx ! c)) (\<lambda>wc.
                          bindE (first_index (cx_cd cx ! d)) (\<lambda>wd.
                          bindE (kronecker_delta [wc, wd]) (\<lambda>dl.
                            push_and_emit cx l k msk (inact_link c d ia1)
                              (st4\<lparr>ot_tensors := (ot_tensors st4)[cx_ot_count cx + nat l := dl]\<rparr>)))))
                  else
                    (let st5 = st4\<lparr>acc_sign := (acc_sign st4)[nat (l + 2) :=
                                   reorder_sign (rev_idxs st4) msk c d (acc_sign st4 ! nat (l + 2))]\<rparr>
                     in bindE (first_index (cx_cd cx ! c)) (\<lambda>wc.
                        bindE (first_index (cx_cd cx ! d)) (\<lambda>wd.
                        bindE (kronecker_delta [wc, wd]) (\<lambda>dl.
                          push_and_emit cx l k msk ia0
                            (st5\<lparr>ot_tensors := (ot_tensors st5)[cx_ot_count cx + nat l := dl]\<rparr>)))))))
         else push_and_emit cx l k (replicate n False) ia0 st3)"

partial_function (option) dfs_loop :: "('f::{numeral,times,uminus}) ctx \<Rightarrow> 'f dfs_state
    \<Rightarrow> (error + 'f dfs_state) option" where
  "dfs_loop cx st =
     (if que st = [] then Some (Inr st)
      else (case dfs_step cx st of
              Inl e \<Rightarrow> Some (Inl e)
            | Inr st' \<Rightarrow> dfs_loop cx st'))"

declare dfs_loop.simps [code]

text \<open>
  \<open>WickExpr::normal_order_impl_new\<close>. The result is \<open>None\<close> when the traversal does not
  end, \<open>Some (Inl e)\<close> when an assertion fails or a read is out of range, and
  \<open>Some (Inr r)\<close> when it returns the expression \<open>r\<close>.
\<close>

definition suffix_sums :: "int list \<Rightarrow> int list" where
  "suffix_sums xs = map (\<lambda>i. sum_list (drop i xs)) [0..<length xs]"

definition normal_order_impl_new :: "('f::{numeral,times,uminus}) WickString \<Rightarrow> int \<Rightarrow> bool
    \<Rightarrow> (error + 'f WickExpr) option" where
  "normal_order_impl_new x max_unctr no_ctr =
     (if cd_type x \<and> sf_type x then Some (Inl AssertMixedOperators)
      else
        (case expand_ops (tensors x) \<lparr>cd_tensors = [], cd_idx_map = [], ot_init = [], init_sign = 0\<rparr> of
           Inl e \<Rightarrow> Some (Inl e)
         | Inr p \<Rightarrow>
            (let cd = cd_tensors p; n = length cd; sf = sf_type x;
                 pairs = map (pairs_from sf cd) [0..<n];
                 ctr = concat pairs;
                 ctr_cd = map (\<lambda>i. length (concat (take i pairs))) [0..<n + 1];
                 nin = (if sf then suffix_sums (map (inactive_first cd) [0..<n] @ [0]) else []);
                 start = (max_unctr \<noteq> 0 \<or> n mod 2 = 0);
                 tidx = (if start
                         then (if sf
                               then stable_sort (\<lambda>i j. tensor_type_code (ttype (cd ! i)) <
                                                        tensor_type_code (ttype (cd ! j))) [0..<n]
                               else stable_sort (\<lambda>i j. tensor_less (cd ! i) (cd ! j)) [0..<n])
                         else replicate n 0);
                 rev0 = (if start \<and> \<not> sf
                         then foldl (\<lambda>r i. r[tidx ! i := i]) (replicate n 0) [0..<n]
                         else replicate n 0);
                 acc0 = (if start
                         then (if sf then init_sign p else inversions rev0 n (init_sign p))
                         else 0)
             in if start \<and> sf \<and>
                   \<not> list_all (\<lambda>i. ttype (cd ! i) = CreationOperator) (take (n div 2) tidx)
                then Some (Inl AssertCreationFirst)
                else
                  (case dfs_loop
                          \<lparr>cx_cd = cd, cx_idx_map = cd_idx_map p, cx_ot_count = length (ot_init p),
                           cx_sf = sf, cx_ctr_idxs = ctr, cx_ctr_cd_idxs = ctr_cd,
                           cx_n_inactive = nin, cx_tensor_idxs = tidx, cx_max_unctr = max_unctr,
                           cx_no_ctr = no_ctr, cx_ctr_indices = ctr_indices x, cx_factor = factor x\<rparr>
                          \<lparr>que = (if start then [(- 1, - 1)] else []),
                           cur_idxs = replicate n (0, 0),
                           acc_sign = (replicate (n + 1) 0)[0 := acc0],
                           ot_tensors = ot_init p,
                           rev_idxs = rev0, final_sign = 0, r_terms = []\<rparr> of
                     None \<Rightarrow> None
                   | Some (Inl e) \<Rightarrow> Some (Inl e)
                   | Some (Inr st) \<Rightarrow> Some (Inr \<lparr>terms = r_terms st\<rparr>)))))"

text \<open>
  \<open>WickExpr::normal_order_impl\<close> distributes the terms over the threads in contiguous
  blocks and concatenates the results of the threads in order: the terms of the result
  are those of the input terms, in the order of the input.
\<close>

fun normal_order_terms :: "('f::{numeral,times,uminus}) WickString list \<Rightarrow> int \<Rightarrow> bool
    \<Rightarrow> (error + 'f WickString list) option" where
  "normal_order_terms [] max_unctr no_ctr = Some (Inr [])"
| "normal_order_terms (x # xs) max_unctr no_ctr =
     (case normal_order_impl_new x max_unctr no_ctr of
        None \<Rightarrow> None
      | Some (Inl e) \<Rightarrow> Some (Inl e)
      | Some (Inr r) \<Rightarrow>
          (case normal_order_terms xs max_unctr no_ctr of
             None \<Rightarrow> None
           | Some (Inl e) \<Rightarrow> Some (Inl e)
           | Some (Inr rs) \<Rightarrow> Some (Inr (terms r @ rs))))"

definition normal_order_impl :: "('f::{numeral,times,uminus}) WickExpr \<Rightarrow> int \<Rightarrow> bool
    \<Rightarrow> (error + 'f WickExpr) option" where
  "normal_order_impl e max_unctr no_ctr =
     (case normal_order_terms (terms e) max_unctr no_ctr of
        None \<Rightarrow> None
      | Some (Inl err) \<Rightarrow> Some (Inl err)
      | Some (Inr ts) \<Rightarrow> Some (Inr \<lparr>terms = ts\<rparr>))"

definition expand :: "('f::{numeral,times,uminus,zero}) WickExpr \<Rightarrow> int \<Rightarrow> bool
    \<Rightarrow> (error + 'f WickExpr) option" where
  "expand e max_unctr no_ctr = normal_order_impl (split_index_types e) max_unctr no_ctr"

section \<open>Normal ordering of a creation operator and a destroy operator\<close>

text \<open>
  The tensors that \<open>WickTensor::cre\<close>, \<open>WickTensor::des\<close> and
  \<open>WickTensor::kronecker_delta\<close> construct, written out.
\<close>

abbreviation C_op :: "WickIndex \<Rightarrow> WickTensor" where
  "C_op w \<equiv> \<lparr>tname = ''C'', indices = [w],
      perms = [\<lparr>data = [0], negative = False\<rparr>], ttype = CreationOperator\<rparr>"

abbreviation D_op :: "WickIndex \<Rightarrow> WickTensor" where
  "D_op w \<equiv> \<lparr>tname = ''D'', indices = [w],
      perms = [\<lparr>data = [0], negative = False\<rparr>], ttype = DestroyOperator\<rparr>"

abbreviation delta_op :: "WickIndex \<Rightarrow> WickIndex \<Rightarrow> WickTensor" where
  "delta_op a b \<equiv> \<lparr>tname = ''delta'', indices = [a, b],
      perms = [\<lparr>data = [0, 1], negative = False\<rparr>, \<lparr>data = [1, 0], negative = False\<rparr>],
      ttype = KroneckerDelta\<rparr>"

abbreviation E1_op :: "WickIndex \<Rightarrow> WickIndex \<Rightarrow> WickTensor" where
  "E1_op a b \<equiv> \<lparr>tname = ''E1'', indices = [a, b],
      perms = [\<lparr>data = [0, 1], negative = False\<rparr>], ttype = SpinFreeOperator\<rparr>"

lemma complete_set_1: "complete_set (Suc 0) [] = Inr [\<lparr>data = [0], negative = False\<rparr>]"
  by code_simp

lemma cre_value: "cre w = Inr (C_op w)"
  by (simp add: cre_def non_symmetric_def WickTensor_new_def complete_set_1 bindE_def)

lemma des_value: "des w = Inr (D_op w)"
  by (simp add: des_def non_symmetric_def WickTensor_new_def complete_set_1 bindE_def)

lemma kronecker_delta_typeless:
  "kronecker_delta [WickIndex i None_t, WickIndex j None_t] =
     Inr (delta_op (WickIndex i None_t) (WickIndex j None_t))"
  by code_simp

lemma kronecker_delta_inactive:
  "kronecker_delta [WickIndex i Inactive, WickIndex j Inactive] =
     Inr (delta_op (WickIndex i Inactive) (WickIndex j Inactive))"
  by code_simp

lemma spin_free_typeless:
  "spin_free [WickIndex i None_t, WickIndex j None_t] =
     Inr (E1_op (WickIndex i None_t) (WickIndex j None_t))"
  by code_simp

lemma expand_C_D_typeless:
  "expand \<lparr>terms = [\<lparr>tensors = [C_op (WickIndex i None_t), D_op (WickIndex j None_t)],
                      ctr_indices = {}, factor = (1 :: real)\<rparr>]\<rparr> (- 1) False =
   Some (Inr \<lparr>terms = [\<lparr>tensors = [C_op (WickIndex i None_t), D_op (WickIndex j None_t)],
                         ctr_indices = {}, factor = 1\<rparr>]\<rparr>)"
  by code_simp

lemma expand_D_C_typeless:
  "expand \<lparr>terms = [\<lparr>tensors = [D_op (WickIndex i None_t), C_op (WickIndex j None_t)],
                      ctr_indices = {}, factor = (1 :: real)\<rparr>]\<rparr> (- 1) False =
   Some (Inr \<lparr>terms =
       [\<lparr>tensors = [C_op (WickIndex j None_t), D_op (WickIndex i None_t)],
         ctr_indices = {}, factor = - 1\<rparr>,
        \<lparr>tensors = [delta_op (WickIndex i None_t) (WickIndex j None_t)],
         ctr_indices = {}, factor = 1\<rparr>]\<rparr>)"
  by code_simp

lemma expand_C_D_inactive:
  "expand \<lparr>terms = [\<lparr>tensors = [C_op (WickIndex i Inactive), D_op (WickIndex j Inactive)],
                      ctr_indices = {}, factor = (1 :: real)\<rparr>]\<rparr> (- 1) False =
   Some (Inr \<lparr>terms =
       [\<lparr>tensors = [D_op (WickIndex j Inactive), C_op (WickIndex i Inactive)],
         ctr_indices = {}, factor = - 1\<rparr>,
        \<lparr>tensors = [delta_op (WickIndex i Inactive) (WickIndex j Inactive)],
         ctr_indices = {}, factor = 1\<rparr>]\<rparr>)"
  by code_simp

text \<open>
  Claim C1, as amended: for all index names \<open>i\<close> and \<open>j\<close>, \<open>expand()\<close> of the one-term
  expression \<open>C[i] D[j]\<close> with factor 1 gives

    \<^item> when both indices have the type \<open>Inactive\<close>, exactly two terms: the reordered
      product \<open>D[j] C[i]\<close> with factor \<open>-1\<close>, then \<open>delta[i,j]\<close> with factor \<open>+1\<close>;
    \<^item> when both indices are typeless, exactly one term, the product \<open>C[i] D[j]\<close> itself
      with factor 1: \<open>WickTensor::operator<\<close> puts a creation operator whose index is
      not inactive before every destroy operator whose index is not inactive, so the
      product is in normal order already and no pair can be contracted;
    \<^item> for the typeless product in the other order, \<open>D[i] C[j]\<close>, exactly two terms:
      \<open>C[j] D[i]\<close> with factor \<open>-1\<close>, then \<open>delta[i,j]\<close> with factor \<open>+1\<close>.
\<close>

theorem expand_creation_destroy_pair:
  "expand \<lparr>terms = [\<lparr>tensors = [C_op (WickIndex i Inactive), D_op (WickIndex j Inactive)],
                      ctr_indices = {}, factor = (1 :: real)\<rparr>]\<rparr> (- 1) False =
   Some (Inr \<lparr>terms =
       [\<lparr>tensors = [D_op (WickIndex j Inactive), C_op (WickIndex i Inactive)],
         ctr_indices = {}, factor = - 1\<rparr>,
        \<lparr>tensors = [delta_op (WickIndex i Inactive) (WickIndex j Inactive)],
         ctr_indices = {}, factor = 1\<rparr>]\<rparr>) \<and>
   expand \<lparr>terms = [\<lparr>tensors = [C_op (WickIndex i None_t), D_op (WickIndex j None_t)],
                      ctr_indices = {}, factor = (1 :: real)\<rparr>]\<rparr> (- 1) False =
   Some (Inr \<lparr>terms = [\<lparr>tensors = [C_op (WickIndex i None_t), D_op (WickIndex j None_t)],
                         ctr_indices = {}, factor = 1\<rparr>]\<rparr>) \<and>
   expand \<lparr>terms = [\<lparr>tensors = [D_op (WickIndex i None_t), C_op (WickIndex j None_t)],
                      ctr_indices = {}, factor = (1 :: real)\<rparr>]\<rparr> (- 1) False =
   Some (Inr \<lparr>terms =
       [\<lparr>tensors = [C_op (WickIndex j None_t), D_op (WickIndex i None_t)],
         ctr_indices = {}, factor = - 1\<rparr>,
        \<lparr>tensors = [delta_op (WickIndex i None_t) (WickIndex j None_t)],
         ctr_indices = {}, factor = 1\<rparr>]\<rparr>)"
  using expand_C_D_inactive[of i j] expand_C_D_typeless[of i j] expand_D_C_typeless[of i j]
  by (intro conjI)

text \<open>
  Claim C1 as stated (typeless indices) fails: for the typeless indices \<open>i\<close> and \<open>j\<close>,
  \<open>expand()\<close> of \<open>C[i] D[j]\<close> returns one term, not two, and no \<open>delta[i,j]\<close>.
\<close>

theorem expand_typeless_pair_counterexample:
  "expand \<lparr>terms = [\<lparr>tensors = [C_op (WickIndex ''i'' None_t), D_op (WickIndex ''j'' None_t)],
                      ctr_indices = {}, factor = (1 :: real)\<rparr>]\<rparr> (- 1) False =
   Some (Inr \<lparr>terms = [\<lparr>tensors = [C_op (WickIndex ''i'' None_t), D_op (WickIndex ''j'' None_t)],
                         ctr_indices = {}, factor = 1\<rparr>]\<rparr>)"
  by code_simp

theorem expand_creation_destroy_pair_witness:
  "expand \<lparr>terms = [\<lparr>tensors = [C_op (WickIndex ''p'' Inactive), D_op (WickIndex ''q'' Inactive)],
                      ctr_indices = {}, factor = (1 :: real)\<rparr>]\<rparr> (- 1) False =
   Some (Inr \<lparr>terms =
       [\<lparr>tensors = [D_op (WickIndex ''q'' Inactive), C_op (WickIndex ''p'' Inactive)],
         ctr_indices = {}, factor = - 1\<rparr>,
        \<lparr>tensors = [delta_op (WickIndex ''p'' Inactive) (WickIndex ''q'' Inactive)],
         ctr_indices = {}, factor = 1\<rparr>]\<rparr>) \<and>
   expand \<lparr>terms = [\<lparr>tensors = [D_op (WickIndex ''p'' None_t), C_op (WickIndex ''q'' None_t)],
                      ctr_indices = {}, factor = (1 :: real)\<rparr>]\<rparr> (- 1) False =
   Some (Inr \<lparr>terms =
       [\<lparr>tensors = [C_op (WickIndex ''q'' None_t), D_op (WickIndex ''p'' None_t)],
         ctr_indices = {}, factor = - 1\<rparr>,
        \<lparr>tensors = [delta_op (WickIndex ''p'' None_t) (WickIndex ''q'' None_t)],
         ctr_indices = {}, factor = 1\<rparr>]\<rparr>)"
  using expand_creation_destroy_pair[of "''p''" "''q''"] by simp

subsection \<open>The errors of the constructors and of the traversal\<close>

text \<open>
  A computation is \<open>benign\<close> when it does not fail with \<open>AssertMixedOperators\<close>: that
  error has one source only, the assertion at the start of \<open>normal_order_impl_new\<close>.
\<close>

definition benign :: "error + 'a \<Rightarrow> bool" where
  "benign m = (m \<noteq> Inl AssertMixedOperators)"

lemma benign_Inr: "benign (Inr x)"
  by (simp add: benign_def)

lemma benign_Inl: "e \<noteq> AssertMixedOperators \<Longrightarrow> benign (Inl e)"
  by (simp add: benign_def)

lemma benign_bindE: "benign m \<Longrightarrow> (\<And>x. benign (f x)) \<Longrightarrow> benign (bindE m f)"
  by (cases m) (simp_all add: benign_def bindE_def)

lemma benign_if: "(c \<Longrightarrow> benign a) \<Longrightarrow> (\<not> c \<Longrightarrow> benign b) \<Longrightarrow> benign (if c then a else b)"
  by simp

lemma benign_Let: "(\<And>x. benign (f x)) \<Longrightarrow> benign (Let s f)"
  by (simp add: Let_def)

lemma benign_case: "benign m \<Longrightarrow> (\<And>x. benign (g x)) \<Longrightarrow>
    benign (case m of Inl e \<Rightarrow> Inl e | Inr x \<Rightarrow> g x)"
  by (cases m) (simp_all add: benign_def)

lemmas benign_intros = benign_Inr benign_bindE benign_if benign_Let benign_case

lemma perm_mul_benign: "benign (perm_mul p q)"
  by (simp add: perm_mul_def benign_def)

lemma add_products_benign: "benign (add_products g ds vwp)"
  by (induction ds arbitrary: vwp) (simp_all add: benign_Inr benign_case perm_mul_benign)

lemma complete_loop_benign: "benign (complete_loop def k vwp)"
proof (induction def k vwp rule: complete_loop.induct)
  case (1 def k vwp)
  show ?case
  proof (cases "k < length vwp")
    case False
    then show ?thesis by (simp add: complete_loop.simps[of def k vwp] benign_Inr)
  next
    case True
    show ?thesis
    proof (cases "add_products (vwp ! k) def vwp")
      case (Inl e)
      then show ?thesis using True add_products_benign[of "vwp ! k" def vwp]
        by (simp add: complete_loop.simps[of def k vwp])
    next
      case (Inr v)
      then show ?thesis using True "1.IH"[OF True Inr]
        by (simp add: complete_loop.simps[of def k vwp])
    qed
  qed
qed

lemma perm_type_valid_benign: "benign (perm_type_valid idx d is)"
  by (induction "is") (simp_all add: benign_def)

lemma reset_permutations_benign: "benign (reset_permutations idx ps)"
  by (induction ps) (simp_all add: benign_Inr benign_bindE perm_type_valid_benign)

lemma WickTensor_new_benign: "benign (WickTensor_new nm idx ps ty)"
  unfolding WickTensor_new_def complete_set_def
  by (intro benign_intros complete_loop_benign reset_permutations_benign)

lemma kronecker_delta_benign: "benign (kronecker_delta idx)"
  unfolding kronecker_delta_def
  by (intro benign_intros benign_Inl WickTensor_new_benign) simp

lemma pair_symmetric_benign: "benign (pair_symmetric n h)"
  by (simp add: pair_symmetric_def benign_def)

lemma spin_free_benign: "benign (spin_free idx)"
  unfolding spin_free_def
  by (intro benign_intros benign_Inl WickTensor_new_benign pair_symmetric_benign) simp

lemma cre_benign: "benign (cre w)"
  unfolding cre_def by (rule WickTensor_new_benign)

lemma des_benign: "benign (des w)"
  unfolding des_def by (rule WickTensor_new_benign)

lemma first_index_benign: "benign (first_index t)"
  by (simp add: first_index_def benign_def)

lemma map_E_benign: "(\<And>x. benign (f x)) \<Longrightarrow> benign (map_E f xs)"
  by (induction xs) (simp_all add: benign_Inr benign_bindE)

lemma expand_ops_benign: "benign (expand_ops ts p)"
proof (induction ts arbitrary: p)
  case Nil
  show ?case by (simp add: benign_Inr)
next
  case (Cons wt rest)
  show ?case
    unfolding expand_ops.simps
    by (intro benign_intros map_E_benign cre_benign des_benign Cons.IH)
qed

lemma emit_benign: "benign (emit cx l msk ia st)"
  unfolding emit_def
  by (intro benign_intros map_E_benign first_index_benign spin_free_benign)

lemma push_and_emit_benign: "benign (push_and_emit cx l k msk ia st)"
  unfolding push_and_emit_def
  by (intro benign_intros emit_benign)

lemma dfs_step_benign: "benign (dfs_step cx st)"
  unfolding dfs_step_def
  by (intro benign_intros benign_Inl first_index_benign kronecker_delta_benign
        push_and_emit_benign) simp

lemma dfs_loop_result: "dfs_loop cx st = Some y \<Longrightarrow> benign y"
proof (rule dfs_loop.raw_induct[where P = "\<lambda>cx st y. benign y"])
  fix f :: "'a ctx \<Rightarrow> 'a dfs_state \<Rightarrow> (error + 'a dfs_state) option" and cx st y
  assume IH: "\<And>cx st y. f cx st = Some y \<Longrightarrow> benign y"
    and a: "(if que st = [] then Some (Inr st)
             else case dfs_step cx st of Inl e \<Rightarrow> Some (Inl e) | Inr st' \<Rightarrow> f cx st') = Some y"
  show "benign y"
  proof (cases "que st = []")
    case True
    then show ?thesis using a by (auto simp: benign_def)
  next
    case False
    show ?thesis
    proof (cases "dfs_step cx st")
      case (Inl e)
      then show ?thesis using a False dfs_step_benign[of cx st] by (auto simp: benign_def)
    next
      case (Inr st')
      then show ?thesis using a False IH by simp
    qed
  qed
qed

lemma dfs_loop_benign: "dfs_loop cx st \<noteq> Some (Inl AssertMixedOperators)"
  using dfs_loop_result[of cx st "Inl AssertMixedOperators"] by (auto simp: benign_def)

lemma normal_order_impl_new_unmixed:
  assumes "\<not> (cd_type x \<and> sf_type x)"
  shows "normal_order_impl_new x max_unctr no_ctr \<noteq> Some (Inl AssertMixedOperators)"
proof (cases "expand_ops (tensors x) \<lparr>cd_tensors = [], cd_idx_map = [], ot_init = [], init_sign = 0\<rparr>")
  case (Inl e)
  then have "e \<noteq> AssertMixedOperators"
    using expand_ops_benign[of "tensors x" "\<lparr>cd_tensors = [], cd_idx_map = [], ot_init = [], init_sign = 0\<rparr>"]
    by (auto simp: benign_def)
  then show ?thesis using assms Inl by (simp add: normal_order_impl_new_def)
next
  case (Inr p)
  have *: "(case m of None \<Rightarrow> None | Some (Inl e) \<Rightarrow> Some (Inl e)
             | Some (Inr st) \<Rightarrow> Some (Inr (g st))) \<noteq> Some (Inl AssertMixedOperators)"
    if "m \<noteq> Some (Inl AssertMixedOperators)" for m :: "(error + 'a dfs_state) option"
      and g :: "'a dfs_state \<Rightarrow> 'a WickExpr"
    using that by (auto split: option.splits sum.splits)
  show ?thesis using assms Inr
    by (simp add: normal_order_impl_new_def Let_def * dfs_loop_benign del: upt_Suc)
qed


section \<open>The assertion on mixed operators\<close>

text \<open>
  Claim C8: \<open>normal_order_impl_new\<close> fails with the assertion \<open>!cd_type || !sf_type\<close>
  exactly for the strings that hold both a creation or destroy operator and a spin-free
  operator. A string that mixes them triggers the assertion whatever \<open>max_unctr\<close> and
  \<open>no_ctr\<close> are; for a string that has no creation or destroy operator, or no spin-free
  operator, the assertion is not reached, neither at the start nor anywhere later in the
  function.
\<close>

theorem mixed_operators_assertion:
  "(normal_order_impl_new x max_unctr no_ctr = Some (Inl AssertMixedOperators)) =
     (cd_type x \<and> sf_type x)"
proof (cases "cd_type x \<and> sf_type x")
  case True
  then show ?thesis by (simp add: normal_order_impl_new_def)
next
  case False
  then show ?thesis using normal_order_impl_new_unmixed[of x max_unctr no_ctr] by simp
qed

lemma mixed_string_example:
  "cd_type \<lparr>tensors = [C_op (WickIndex ''i'' None_t),
                         E1_op (WickIndex ''j'' None_t) (WickIndex ''k'' None_t)],
            ctr_indices = {}, factor = (1 :: real)\<rparr> \<and>
   sf_type \<lparr>tensors = [C_op (WickIndex ''i'' None_t),
                         E1_op (WickIndex ''j'' None_t) (WickIndex ''k'' None_t)],
            ctr_indices = {}, factor = (1 :: real)\<rparr>"
  by code_simp

lemma unmixed_string_example:
  "\<not> sf_type \<lparr>tensors = [C_op (WickIndex ''i'' None_t), D_op (WickIndex ''j'' None_t)],
              ctr_indices = {}, factor = (1 :: real)\<rparr>"
  by code_simp

theorem mixed_operators_assertion_witness:
  "normal_order_impl_new
     \<lparr>tensors = [C_op (WickIndex ''i'' None_t),
                 E1_op (WickIndex ''j'' None_t) (WickIndex ''k'' None_t)],
      ctr_indices = {}, factor = (1 :: real)\<rparr> (- 1) False = Some (Inl AssertMixedOperators) \<and>
   normal_order_impl_new
     \<lparr>tensors = [C_op (WickIndex ''i'' None_t), D_op (WickIndex ''j'' None_t)],
      ctr_indices = {}, factor = (1 :: real)\<rparr> (- 1) False \<noteq> Some (Inl AssertMixedOperators)"
  using mixed_operators_assertion[of
      "\<lparr>tensors = [C_op (WickIndex ''i'' None_t),
                   E1_op (WickIndex ''j'' None_t) (WickIndex ''k'' None_t)],
        ctr_indices = {}, factor = (1 :: real)\<rparr>" "- 1" False]
    mixed_operators_assertion[of
      "\<lparr>tensors = [C_op (WickIndex ''i'' None_t), D_op (WickIndex ''j'' None_t)],
        ctr_indices = {}, factor = (1 :: real)\<rparr>" "- 1" False]
    mixed_string_example unmixed_string_example
  by simp

section \<open>Full contraction of an odd number of operators\<close>

text \<open>
  The number of elementary operators of a string: one for each creation or destroy
  operator, and \<open>2 * (indices.size() / 2)\<close> for each spin-free operator. It is the size
  that \<open>cd_tensors\<close> has after the first loop of \<open>normal_order_impl_new\<close>.
\<close>

definition elementary_ops :: "WickTensor list \<Rightarrow> nat" where
  "elementary_ops ts =
     sum_list (map (\<lambda>wt. if is_cd wt then 1
                          else if ttype wt = SpinFreeOperator then 2 * (length (indices wt) div 2)
                          else 0) ts)"

lemma map_E_length: "map_E f xs = Inr ys \<Longrightarrow> length ys = length xs"
proof (induction xs arbitrary: ys)
  case Nil
  then show ?case by simp
next
  case (Cons x xs)
  then show ?case
    by (cases "f x"; cases "map_E f xs") (auto simp: bindE_def)
qed

lemma expand_ops_count:
  "expand_ops ts p = Inr p' \<Longrightarrow> length (cd_tensors p') = length (cd_tensors p) + elementary_ops ts"
proof (induction ts arbitrary: p)
  case Nil
  then show ?case by (simp add: elementary_ops_def)
next
  case (Cons wt rest)
  show ?case
  proof (cases "is_cd wt")
    case True
    then have "expand_ops rest (p\<lparr>cd_tensors := cd_tensors p @ [wt]\<rparr>) = Inr p'"
      using Cons.prems by simp
    from Cons.IH[OF this] show ?thesis using True by (simp add: elementary_ops_def)
  next
    case ncd: False
    show ?thesis
    proof (cases "ttype wt = SpinFreeOperator")
      case False
      then have "expand_ops rest (p\<lparr>ot_init := ot_init p @ [wt]\<rparr>) = Inr p'"
        using Cons.prems ncd by simp
      from Cons.IH[OF this] show ?thesis using ncd False by (simp add: elementary_ops_def)
    next
      case True
      define sf_n where "sf_n = length (indices wt) div 2"
      define s0 where "s0 = length (cd_idx_map p)"
      have eq: "expand_ops (wt # rest) p =
         bindE (map_E cre (take sf_n (indices wt))) (\<lambda>cs.
         bindE (map_E des (take sf_n (drop sf_n (indices wt)))) (\<lambda>ds.
           expand_ops rest
             (p\<lparr>init_sign := init_sign p XOR reverse_sign (int sf_n),
                cd_tensors := cd_tensors p @ cs @ ds,
                cd_idx_map := cd_idx_map p @ map (\<lambda>i. s0 + i + sf_n) [0..<sf_n] @
                                             map (\<lambda>i. s0 + sf_n + i - sf_n) [0..<sf_n]\<rparr>)))"
        using ncd True by (simp add: Let_def sf_n_def s0_def)
      obtain cs where cs: "map_E cre (take sf_n (indices wt)) = Inr cs"
        using Cons.prems unfolding eq by (cases "map_E cre (take sf_n (indices wt))") (auto simp: bindE_def)
      obtain ds where ds: "map_E des (take sf_n (drop sf_n (indices wt))) = Inr ds"
        using Cons.prems cs unfolding eq
        by (cases "map_E des (take sf_n (drop sf_n (indices wt)))") (auto simp: bindE_def)
      have rest: "expand_ops rest
             (p\<lparr>init_sign := init_sign p XOR reverse_sign (int sf_n),
                cd_tensors := cd_tensors p @ cs @ ds,
                cd_idx_map := cd_idx_map p @ map (\<lambda>i. s0 + i + sf_n) [0..<sf_n] @
                                             map (\<lambda>i. s0 + sf_n + i - sf_n) [0..<sf_n]\<rparr>) = Inr p'"
        using Cons.prems cs ds unfolding eq by (simp add: bindE_def)
      have lc: "length cs = sf_n" using map_E_length[OF cs] by (simp add: sf_n_def)
      have ld: "length ds = sf_n" using map_E_length[OF ds] by (simp add: sf_n_def)
      from Cons.IH[OF rest] show ?thesis
        using ncd True lc ld by (simp add: elementary_ops_def sf_n_def)
    qed
  qed
qed

lemma expand_ops_no_spin_free:
  "\<not> list_ex (\<lambda>wt. ttype wt = SpinFreeOperator) ts \<Longrightarrow> \<exists>p'. expand_ops ts p = Inr p'"
proof (induction ts arbitrary: p)
  case Nil
  then show ?case by simp
next
  case (Cons wt rest)
  then show ?case by simp
qed

lemma elementary_ops_even:
  "\<not> list_ex is_cd ts \<Longrightarrow> even (elementary_ops ts)"
  by (induction ts) (simp_all add: elementary_ops_def)

lemma dfs_loop_empty: "que st = [] \<Longrightarrow> dfs_loop cx st = Some (Inr st)"
  by (simp add: dfs_loop.simps)

lemma normal_order_odd_unmixed:
  assumes odd: "odd (elementary_ops (tensors x))" and unmixed: "\<not> (cd_type x \<and> sf_type x)"
  shows "normal_order_impl_new x 0 no_ctr = Some (Inr \<lparr>terms = []\<rparr>)"
proof -
  have cd: "cd_type x" using odd elementary_ops_even[of "tensors x"] by (auto simp: cd_type_def)
  then have nsf: "\<not> sf_type x" using unmixed by simp
  then obtain p where p: "expand_ops (tensors x) \<lparr>cd_tensors = [], cd_idx_map = [], ot_init = [], init_sign = 0\<rparr> = Inr p"
    using expand_ops_no_spin_free[of "tensors x"] unfolding sf_type_def by blast
  have "length (cd_tensors p) = elementary_ops (tensors x)"
    using expand_ops_count[OF p] by simp
  then have n: "length (cd_tensors p) mod 2 \<noteq> 0" using odd by presburger
  show ?thesis
    using nsf p n
    by (simp add: normal_order_impl_new_def Let_def dfs_loop_empty del: upt_Suc)
qed

text \<open>
  Claim C10, as amended: for every string whose number of elementary creation and destroy
  operators (each spin-free operator counted as its creation and its destroy operators)
  is odd, normal ordering with \<open>max_unctr = 0\<close> returns the empty expression if the string
  does not hold both a creation or destroy operator and a spin-free operator; if it holds
  both, the call fails with the assertion on mixed operators and returns no expression.
\<close>

theorem odd_operators_full_contraction:
  assumes "odd (elementary_ops (tensors x))"
  shows "normal_order_impl_new x 0 no_ctr =
           (if cd_type x \<and> sf_type x then Some (Inl AssertMixedOperators)
            else Some (Inr \<lparr>terms = []\<rparr>))"
proof (cases "cd_type x \<and> sf_type x")
  case True
  then show ?thesis by (simp add: normal_order_impl_new_def)
next
  case False
  then show ?thesis using normal_order_odd_unmixed[OF assms False] by simp
qed

text \<open>
  Claim C10 as stated (every string with an odd number of elementary operators) fails
  for the string \<open>C[a] E1[b,c]\<close>: it has three elementary operators, and normal ordering
  with \<open>max_unctr = 0\<close> does not return the empty expression but stops at the assertion.
\<close>

theorem odd_operators_counterexample:
  "odd (elementary_ops [C_op (WickIndex ''a'' None_t),
                         E1_op (WickIndex ''b'' None_t) (WickIndex ''c'' None_t)]) \<and>
   normal_order_impl_new
     \<lparr>tensors = [C_op (WickIndex ''a'' None_t),
                 E1_op (WickIndex ''b'' None_t) (WickIndex ''c'' None_t)],
      ctr_indices = {}, factor = (1 :: real)\<rparr> 0 False = Some (Inl AssertMixedOperators)"
  by code_simp

lemma odd_string_example:
  "odd (elementary_ops (tensors
     \<lparr>tensors = [C_op (WickIndex ''a'' None_t), D_op (WickIndex ''b'' None_t),
                 D_op (WickIndex ''c'' None_t)],
      ctr_indices = {}, factor = (1 :: real)\<rparr>)) \<and>
   \<not> sf_type \<lparr>tensors = [C_op (WickIndex ''a'' None_t), D_op (WickIndex ''b'' None_t),
                 D_op (WickIndex ''c'' None_t)],
      ctr_indices = {}, factor = (1 :: real)\<rparr>"
  by code_simp

theorem odd_operators_full_contraction_witness:
  "odd (elementary_ops [C_op (WickIndex ''a'' None_t), D_op (WickIndex ''b'' None_t),
                         D_op (WickIndex ''c'' None_t)]) \<and>
   normal_order_impl_new
     \<lparr>tensors = [C_op (WickIndex ''a'' None_t), D_op (WickIndex ''b'' None_t),
                 D_op (WickIndex ''c'' None_t)],
      ctr_indices = {}, factor = (1 :: real)\<rparr> 0 False = Some (Inr \<lparr>terms = []\<rparr>)"
  using odd_operators_full_contraction[of
      "\<lparr>tensors = [C_op (WickIndex ''a'' None_t), D_op (WickIndex ''b'' None_t),
                   D_op (WickIndex ''c'' None_t)],
        ctr_indices = {}, factor = (1 :: real)\<rparr>" False]
    odd_string_example
  by simp

section \<open>Delayed evaluation of operator expressions (DelayedTensorFunctions)\<close>

text \<open>
  The expression nodes that \<open>tensor_product\<close>, \<open>tensor_product_multiply\<close> and
  \<open>tensor_product_diagonal\<close> dispatch on, with the fields that these functions read:
  \<open>OpString\<close> (type \<open>Prod\<close>: \<open>factor\<close>, \<open>conj\<close>, \<open>a\<close>, \<open>b\<close>), \<open>OpSumProd\<close> (type
  \<open>SumProd\<close>: also \<open>ops\<close> and \<open>conjs\<close>), \<open>OpSum\<close> (type \<open>Sum\<close>: \<open>strings\<close>) and the node of
  type \<open>Zero\<close>. \<open>Other\<close> stands for every node type that the \<open>switch\<close> sends to
  \<open>default\<close>. A null pointer is \<open>None\<close>.
\<close>

datatype ('e, 'f) OpExpr =
    Prod 'f nat 'e "'e option"
  | SumProd 'f nat "'e option" "'e option" "'e list" "bool list"
  | Sum "('e, 'f) OpExpr list"
  | Zero
  | Other

text \<open>
  The operations that the functions call and that are declared in other files are
  parameters: \<open>'m\<close> is a matrix (a \<open>shared_ptr<SparseMatrix>\<close>), \<open>'s\<close> the whole
  mutable store (the contents of all matrices, of the output matrix too, the stack
  allocator and the batched sequence of \<open>opf\<close>), \<open>'q\<close> a quantum number.
\<close>

record ('e, 'f, 'm, 'q, 's) kernel =
  abs_value :: "'e \<Rightarrow> 'e"
  elem_factor :: "'e \<Rightarrow> 'f"
  is_delayed :: "'m \<Rightarrow> bool"
  build :: "'m \<Rightarrow> 's \<Rightarrow> 'm \<times> 's"
  deallocate :: "'m \<Rightarrow> 's \<Rightarrow> 's"
  new_matrix :: "'s \<Rightarrow> 'm \<times> 's"
  allocate_like :: "'m \<Rightarrow> 'm \<Rightarrow> 's \<Rightarrow> 's"
  opf_iadd :: "'m \<Rightarrow> 'm \<Rightarrow> 'f \<Rightarrow> bool \<Rightarrow> 's \<Rightarrow> 's"
  seq_simple :: "'s \<Rightarrow> bool"
  simple_perform :: "'s \<Rightarrow> 's"
  opf_tensor_product :: "nat \<Rightarrow> 'm \<Rightarrow> 'm \<Rightarrow> 'm \<Rightarrow> 'f \<Rightarrow> 's \<Rightarrow> 's"
  opf_tensor_product_multiply :: "nat \<Rightarrow> 'm \<Rightarrow> 'm \<Rightarrow> 'm \<Rightarrow> 'm \<Rightarrow> 'q \<Rightarrow> 'f \<Rightarrow> 's \<Rightarrow> 's"
  opf_tensor_product_diagonal :: "nat \<Rightarrow> 'm \<Rightarrow> 'm \<Rightarrow> 'm \<Rightarrow> 'q \<Rightarrow> 'f \<Rightarrow> 's \<Rightarrow> 's"

text \<open>\<open>dl ? dynamic_pointer_cast<DelayedSparseMatrix<S>>(lmat)->build() : lmat\<close>.\<close>

definition built :: "('e, 'f, 'm, 'q, 's) kernel \<Rightarrow> 'm \<Rightarrow> 's \<Rightarrow> 'm \<times> 's" where
  "built K m s = (if is_delayed K m then build K m s else (m, s))"

text \<open>\<open>if (dl) lmat->deallocate()\<close>.\<close>

definition release :: "('e, 'f, 'm, 'q, 's) kernel \<Rightarrow> bool \<Rightarrow> 'm \<Rightarrow> 's \<Rightarrow> 's" where
  "release K d m s = (if d then deallocate K m s else s)"

text \<open>
  The case \<open>Prod\<close>, which the three functions share but for the operation of \<open>opf\<close>
  that they call (\<open>run\<close>).
\<close>

definition prod_case :: "('e, 'f, 'm, 'q, 's) kernel \<Rightarrow> ('m \<Rightarrow> 'm \<Rightarrow> 's \<Rightarrow> 's)
    \<Rightarrow> 'e \<Rightarrow> 'e option \<Rightarrow> ('e \<rightharpoonup> 'm) \<Rightarrow> ('e \<rightharpoonup> 'm) \<Rightarrow> 's \<Rightarrow> error + 's" where
  "prod_case K run a b lop rop s =
     (case b of
        None \<Rightarrow> Inl AssertNullOperand
      | Some b' \<Rightarrow>
          (case (lop a, rop b') of
             (Some lm, Some rm) \<Rightarrow>
               (let (lmat, s1) = built K lm s;
                    (rmat, s2) = built K rm s1;
                    s3 = run lmat rmat s2;
                    s4 = release K (is_delayed K rm) rmat s3
                in Inr (release K (is_delayed K lm) lmat s4))
           | _ \<Rightarrow> Inl AssertMissingOperand))"

text \<open>
  The loop of the case \<open>SumProd\<close> that adds the operands \<open>ops[i]\<close> into \<open>tmp\<close>;
  \<open>map::at\<close> throws for a missing key.
\<close>

fun iadd_loop :: "('e, 'f::times, 'm, 'q, 's) kernel \<Rightarrow> ('e \<rightharpoonup> 'm) \<Rightarrow> 'f \<Rightarrow> 'm
    \<Rightarrow> 'e list \<Rightarrow> bool list \<Rightarrow> 's \<Rightarrow> error + 's" where
  "iadd_loop K opm fac tmp [] cjs s = Inr s"
| "iadd_loop K opm fac tmp (x # xs) cjs s =
     (case opm (abs_value K x) of
        None \<Rightarrow> Inl OutOfRange
      | Some m \<Rightarrow>
          (case cjs of
             [] \<Rightarrow> Inl OutOfRange
           | c # cs \<Rightarrow>
               (let (m', s1) = built K m s;
                    s2 = opf_iadd K tmp m' (fac * elem_factor K x) c s1;
                    s3 = (if seq_simple K s2 then simple_perform K s2 else s2)
                in iadd_loop K opm fac tmp xs cs (release K (is_delayed K m) m' s3))))"

definition sum_prod_case :: "('e, 'f::{times,one}, 'm, 'q, 's) kernel \<Rightarrow> 'f \<Rightarrow> nat
    \<Rightarrow> 'e option \<Rightarrow> 'e option \<Rightarrow> 'e list \<Rightarrow> bool list
    \<Rightarrow> ('e \<rightharpoonup> 'm) \<Rightarrow> ('e \<rightharpoonup> 'm) \<Rightarrow> 'm \<Rightarrow> 's \<Rightarrow> error + 's" where
  "sum_prod_case K fac cj a b ops cjs lop rop mat s =
     (if (a = None) = (b = None) then Inl AssertSumProdShape
      else if ops = [] then Inl AssertEmptyOps
      else
        (let (tmp, s0) = new_matrix K s in
         case (a, b) of
           (Some a', None) \<Rightarrow>
             (case (lop a', rop (abs_value K (ops ! 0))) of
                (Some lm, Some rm0) \<Rightarrow>
                  bindE (iadd_loop K rop fac tmp ops cjs (allocate_like K tmp rm0 s0)) (\<lambda>s1.
                    (let (lmat, s2) = built K lm s1;
                         s3 = opf_tensor_product K cj lmat tmp mat 1 s2;
                         s4 = release K (is_delayed K lm) lmat s3
                     in Inr (deallocate K tmp s4)))
              | _ \<Rightarrow> Inl AssertMissingOperand)
         | (None, Some b') \<Rightarrow>
             (case (lop (abs_value K (ops ! 0)), rop b') of
                (Some lm0, Some rm) \<Rightarrow>
                  bindE (iadd_loop K lop fac tmp ops cjs (allocate_like K tmp lm0 s0)) (\<lambda>s1.
                    (let (rmat, s2) = built K rm s1;
                         s3 = opf_tensor_product K cj tmp rmat mat 1 s2;
                         s4 = release K (is_delayed K rm) rmat s3
                     in Inr (deallocate K tmp s4)))
              | _ \<Rightarrow> Inl AssertMissingOperand)
         | _ \<Rightarrow> Inl AssertSumProdShape))"

text \<open>\<open>DelayedTensorFunctions::tensor_product\<close>: \<open>mat = eval(expr)\<close>.\<close>

fun tensor_product :: "('e, 'f::{times,one}, 'm, 'q, 's) kernel \<Rightarrow> ('e, 'f) OpExpr
    \<Rightarrow> ('e \<rightharpoonup> 'm) \<Rightarrow> ('e \<rightharpoonup> 'm) \<Rightarrow> 'm \<Rightarrow> 's \<Rightarrow> error + 's"
  and tensor_product_strings :: "('e, 'f::{times,one}, 'm, 'q, 's) kernel \<Rightarrow> ('e, 'f) OpExpr list
    \<Rightarrow> ('e \<rightharpoonup> 'm) \<Rightarrow> ('e \<rightharpoonup> 'm) \<Rightarrow> 'm \<Rightarrow> 's \<Rightarrow> error + 's" where
  "tensor_product K (Prod fac cj a b) lop rop mat s =
     prod_case K (\<lambda>lmat rmat. opf_tensor_product K cj lmat rmat mat fac) a b lop rop s"
| "tensor_product K (SumProd fac cj a b ops cjs) lop rop mat s =
     sum_prod_case K fac cj a b ops cjs lop rop mat s"
| "tensor_product K (Sum strings) lop rop mat s = tensor_product_strings K strings lop rop mat s"
| "tensor_product K Zero lop rop mat s = Inr s"
| "tensor_product K Other lop rop mat s = Inl AssertFalse"
| "tensor_product_strings K [] lop rop mat s = Inr s"
| "tensor_product_strings K (x # xs) lop rop mat s =
     bindE (tensor_product K x lop rop mat s) (tensor_product_strings K xs lop rop mat)"

text \<open>\<open>DelayedTensorFunctions::tensor_product_multiply\<close>: \<open>vmat = expr x cmat\<close>.\<close>

fun tensor_product_multiply :: "('e, 'f, 'm, 'q, 's) kernel \<Rightarrow> ('e, 'f) OpExpr
    \<Rightarrow> ('e \<rightharpoonup> 'm) \<Rightarrow> ('e \<rightharpoonup> 'm) \<Rightarrow> 'm \<Rightarrow> 'm \<Rightarrow> 'q \<Rightarrow> bool \<Rightarrow> 's \<Rightarrow> error + 's"
  and tensor_product_multiply_strings :: "('e, 'f, 'm, 'q, 's) kernel \<Rightarrow> ('e, 'f) OpExpr list
    \<Rightarrow> ('e \<rightharpoonup> 'm) \<Rightarrow> ('e \<rightharpoonup> 'm) \<Rightarrow> 'm \<Rightarrow> 'm \<Rightarrow> 'q \<Rightarrow> 's \<Rightarrow> error + 's" where
  "tensor_product_multiply K (Prod fac cj a b) lop rop cmat vmat opdq all_reduce s =
     prod_case K (\<lambda>lmat rmat. opf_tensor_product_multiply K cj lmat rmat cmat vmat opdq fac)
       a b lop rop s"
| "tensor_product_multiply K (Sum strings) lop rop cmat vmat opdq all_reduce s =
     tensor_product_multiply_strings K strings lop rop cmat vmat opdq s"
| "tensor_product_multiply K Zero lop rop cmat vmat opdq all_reduce s = Inr s"
| "tensor_product_multiply K (SumProd fac cj a b ops cjs) lop rop cmat vmat opdq all_reduce s =
     Inl AssertFalse"
| "tensor_product_multiply K Other lop rop cmat vmat opdq all_reduce s = Inl AssertFalse"
| "tensor_product_multiply_strings K [] lop rop cmat vmat opdq s = Inr s"
| "tensor_product_multiply_strings K (x # xs) lop rop cmat vmat opdq s =
     bindE (tensor_product_multiply K x lop rop cmat vmat opdq False s)
       (tensor_product_multiply_strings K xs lop rop cmat vmat opdq)"

text \<open>\<open>DelayedTensorFunctions::tensor_product_diagonal\<close>: \<open>mat = diag(expr)\<close>.\<close>

fun tensor_product_diagonal :: "('e, 'f, 'm, 'q, 's) kernel \<Rightarrow> ('e, 'f) OpExpr
    \<Rightarrow> ('e \<rightharpoonup> 'm) \<Rightarrow> ('e \<rightharpoonup> 'm) \<Rightarrow> 'm \<Rightarrow> 'q \<Rightarrow> 's \<Rightarrow> error + 's"
  and tensor_product_diagonal_strings :: "('e, 'f, 'm, 'q, 's) kernel \<Rightarrow> ('e, 'f) OpExpr list
    \<Rightarrow> ('e \<rightharpoonup> 'm) \<Rightarrow> ('e \<rightharpoonup> 'm) \<Rightarrow> 'm \<Rightarrow> 'q \<Rightarrow> 's \<Rightarrow> error + 's" where
  "tensor_product_diagonal K (Prod fac cj a b) lop rop mat opdq s =
     prod_case K (\<lambda>lmat rmat. opf_tensor_product_diagonal K cj lmat rmat mat opdq fac)
       a b lop rop s"
| "tensor_product_diagonal K (Sum strings) lop rop mat opdq s =
     tensor_product_diagonal_strings K strings lop rop mat opdq s"
| "tensor_product_diagonal K Zero lop rop mat opdq s = Inr s"
| "tensor_product_diagonal K (SumProd fac cj a b ops cjs) lop rop mat opdq s = Inl AssertFalse"
| "tensor_product_diagonal K Other lop rop mat opdq s = Inl AssertFalse"
| "tensor_product_diagonal_strings K [] lop rop mat opdq s = Inr s"
| "tensor_product_diagonal_strings K (x # xs) lop rop mat opdq s =
     bindE (tensor_product_diagonal K x lop rop mat opdq s)
       (tensor_product_diagonal_strings K xs lop rop mat opdq)"

text \<open>
  Claim C9: for all operand maps \<open>lop\<close> and \<open>rop\<close>, every output matrix and every store
  \<open>s\<close>, the three functions applied to a node of type \<open>Zero\<close> return at once, without
  failure, and with the store they were given: no operation of \<open>opf\<close> is called, nothing
  is built, allocated or deallocated, so the output matrix and all the matrices of both
  operand maps are as before (the maps themselves are \<open>const\<close> arguments).
\<close>

theorem zero_node_no_operation:
  "tensor_product K Zero lop rop mat s = Inr s \<and>
   tensor_product_multiply K Zero lop rop cmat vmat opdq all_reduce s = Inr s \<and>
   tensor_product_diagonal K Zero lop rop mat opdq s = Inr s"
  by simp

text \<open>
  An instance with operations that do change the store (each appends a mark to it),
  and a product node beside it on which the store does change.
\<close>

definition marking_kernel :: "(nat, int, nat, nat, nat list) kernel" where
  "marking_kernel =
     \<lparr>abs_value = (\<lambda>e. e), elem_factor = (\<lambda>e. 1), is_delayed = (\<lambda>m. m = 0),
      build = (\<lambda>m s. (Suc m, s @ [1])), deallocate = (\<lambda>m s. s @ [2]),
      new_matrix = (\<lambda>s. (length s, s @ [3])), allocate_like = (\<lambda>m m' s. s @ [4]),
      opf_iadd = (\<lambda>a b f c s. s @ [5]), seq_simple = (\<lambda>s. True),
      simple_perform = (\<lambda>s. s @ [6]),
      opf_tensor_product = (\<lambda>cj l r m f s. s @ [7]),
      opf_tensor_product_multiply = (\<lambda>cj l r c v q f s. s @ [8]),
      opf_tensor_product_diagonal = (\<lambda>cj l r m q f s. s @ [9])\<rparr>"

lemma product_node_changes_store:
  "tensor_product marking_kernel (Prod 1 0 5 (Some 6)) [5 \<mapsto> 0] [6 \<mapsto> 3] 9 [] =
     Inr [1, 7, 2]"
  by (simp add: marking_kernel_def prod_case_def built_def release_def)

theorem zero_node_no_operation_witness:
  "tensor_product marking_kernel Zero [5 \<mapsto> 0] [6 \<mapsto> 3] 9 [] = Inr [] \<and>
   tensor_product_multiply marking_kernel Zero [5 \<mapsto> 0] [6 \<mapsto> 3] 8 9 0 True [] = Inr [] \<and>
   tensor_product_diagonal marking_kernel Zero [5 \<mapsto> 0] [6 \<mapsto> 3] 9 0 [] = Inr []"
  using zero_node_no_operation[of marking_kernel "[5 \<mapsto> 0]" "[6 \<mapsto> 3]" 9 "[]" 8 9 0 True]
  by simp

end
